theory Spec2Isabelle
  imports Main "HOL-Library.Multiset" "HOL-Library.AList"
begin

section \<open>Python values and exceptions\<close>

text \<open>
  The program is \<^verbatim>\<open>stablemarriage/stable_marriage.py\<close>. Exceptions are values: a
  function that can raise returns \<open>error + 'a\<close>, with \<open>Inl\<close> for the exception.
\<close>

datatype error = ValueError | IndexError | KeyError | OverflowError

text \<open>\<^verbatim>\<open>xs[i]\<close> and \<^verbatim>\<open>xs[i] = v\<close> on a Python list, for an index \<open>i \<ge> 0\<close>.\<close>

definition getitem :: "'a list \<Rightarrow> nat \<Rightarrow> error + 'a" where
  "getitem xs i = (if i < length xs then Inr (xs ! i) else Inl IndexError)"

definition setitem :: "'a list \<Rightarrow> nat \<Rightarrow> 'a \<Rightarrow> error + 'a list" where
  "setitem xs i v = (if i < length xs then Inr (xs[i := v]) else Inl IndexError)"

section \<open>The heapq functions used by Node.add_device\<close>

text \<open>
  \<^verbatim>\<open>heapq.heappush\<close> and \<^verbatim>\<open>heapq.heappushpop\<close> of the Python standard library, with
  their helpers \<^verbatim>\<open>_siftdown\<close> and \<^verbatim>\<open>_siftup\<close>. The comparison \<open>lt\<close> is the
  \<^verbatim>\<open>__lt__\<close> of the items.

  \<^verbatim>\<open>
  def _siftdown(heap, startpos, pos):
      newitem = heap[pos]
      while pos > startpos:
          parentpos = (pos - 1) >> 1
          parent = heap[parentpos]
          if newitem < parent:
              heap[pos] = parent
              pos = parentpos
              continue
          break
      heap[pos] = newitem
  \<close>
\<close>

function siftdown_loop ::
  "('a \<Rightarrow> 'a \<Rightarrow> bool) \<Rightarrow> 'a list \<Rightarrow> nat \<Rightarrow> 'a \<Rightarrow> nat \<Rightarrow> error + 'a list" where
  "siftdown_loop lt heap startpos newitem pos =
     (if pos > startpos then
        (case getitem heap ((pos - 1) div 2) of
           Inl e \<Rightarrow> Inl e
         | Inr parent \<Rightarrow>
             if lt newitem parent then
               (case setitem heap pos parent of
                  Inl e \<Rightarrow> Inl e
                | Inr heap' \<Rightarrow> siftdown_loop lt heap' startpos newitem ((pos - 1) div 2))
             else setitem heap pos newitem)
      else setitem heap pos newitem)"
  by pat_completeness auto
termination
  by (relation "measure (\<lambda>(lt, heap, startpos, newitem, pos). pos)") auto

declare siftdown_loop.simps [simp del]

definition siftdown :: "('a \<Rightarrow> 'a \<Rightarrow> bool) \<Rightarrow> 'a list \<Rightarrow> nat \<Rightarrow> nat \<Rightarrow> error + 'a list" where
  "siftdown lt heap startpos pos =
     (case getitem heap pos of
        Inl e \<Rightarrow> Inl e
      | Inr newitem \<Rightarrow> siftdown_loop lt heap startpos newitem pos)"

text \<open>
  \<^verbatim>\<open>
  def _siftup(heap, pos):
      endpos = len(heap)
      startpos = pos
      newitem = heap[pos]
      childpos = 2*pos + 1
      while childpos < endpos:
          rightpos = childpos + 1
          if rightpos < endpos and not heap[childpos] < heap[rightpos]:
              childpos = rightpos
          heap[pos] = heap[childpos]
          pos = childpos
          childpos = 2*pos + 1
      heap[pos] = newitem
      _siftdown(heap, startpos, pos)
  \<close>
  \<open>smaller_child\<close> is the \<^verbatim>\<open>if\<close> that moves \<^verbatim>\<open>childpos\<close> to the right child.
\<close>

definition smaller_child ::
  "('a \<Rightarrow> 'a \<Rightarrow> bool) \<Rightarrow> 'a list \<Rightarrow> nat \<Rightarrow> nat \<Rightarrow> error + nat" where
  "smaller_child lt heap endpos childpos =
     (let rightpos = childpos + 1 in
      if rightpos < endpos then
        (case getitem heap childpos of
           Inl e \<Rightarrow> Inl e
         | Inr c \<Rightarrow>
             (case getitem heap rightpos of
                Inl e \<Rightarrow> Inl e
              | Inr r \<Rightarrow> Inr (if \<not> lt c r then rightpos else childpos)))
      else Inr childpos)"

function siftup_loop ::
  "('a \<Rightarrow> 'a \<Rightarrow> bool) \<Rightarrow> 'a list \<Rightarrow> nat \<Rightarrow> nat \<Rightarrow> error + ('a list \<times> nat)" where
  "siftup_loop lt heap endpos pos =
     (if 2 * pos + 1 < endpos then
        (case smaller_child lt heap endpos (2 * pos + 1) of
           Inl e \<Rightarrow> Inl e
         | Inr childpos \<Rightarrow>
             (case getitem heap childpos of
                Inl e \<Rightarrow> Inl e
              | Inr c \<Rightarrow>
                  (case setitem heap pos c of
                     Inl e \<Rightarrow> Inl e
                   | Inr heap' \<Rightarrow> siftup_loop lt heap' endpos childpos)))
      else Inr (heap, pos))"
  by pat_completeness auto
termination
  by (relation "measure (\<lambda>(lt, heap, endpos, pos). endpos - pos)")
     (auto simp: smaller_child_def Let_def split: if_splits sum.splits)

declare siftup_loop.simps [simp del]

definition siftup :: "('a \<Rightarrow> 'a \<Rightarrow> bool) \<Rightarrow> 'a list \<Rightarrow> nat \<Rightarrow> error + 'a list" where
  "siftup lt heap pos =
     (let endpos = length heap; startpos = pos in
      case getitem heap pos of
        Inl e \<Rightarrow> Inl e
      | Inr newitem \<Rightarrow>
          (case siftup_loop lt heap endpos pos of
             Inl e \<Rightarrow> Inl e
           | Inr (heap', pos') \<Rightarrow>
               (case setitem heap' pos' newitem of
                  Inl e \<Rightarrow> Inl e
                | Inr heap'' \<Rightarrow> siftdown lt heap'' startpos pos')))"

text \<open>
  \<^verbatim>\<open>
  def heappush(heap, item):
      heap.append(item)
      _siftdown(heap, 0, len(heap)-1)

  def heappushpop(heap, item):
      if heap and heap[0] < item:
          item, heap[0] = heap[0], item
          _siftup(heap, 0)
      return item
  \<close>
  Both mutate the list; the model returns the new list (and the returned item).
\<close>

definition heappush :: "('a \<Rightarrow> 'a \<Rightarrow> bool) \<Rightarrow> 'a list \<Rightarrow> 'a \<Rightarrow> error + 'a list" where
  "heappush lt heap item =
     (let heap' = heap @ [item] in siftdown lt heap' 0 (length heap' - 1))"

definition heappushpop ::
  "('a \<Rightarrow> 'a \<Rightarrow> bool) \<Rightarrow> 'a list \<Rightarrow> 'a \<Rightarrow> error + ('a list \<times> 'a)" where
  "heappushpop lt heap item =
     (if heap \<noteq> [] then
        (case getitem heap 0 of
           Inl e \<Rightarrow> Inl e
         | Inr root \<Rightarrow>
             if lt root item then
               (case setitem heap 0 item of
                  Inl e \<Rightarrow> Inl e
                | Inr heap' \<Rightarrow>
                    (case siftup lt heap' 0 of
                       Inl e \<Rightarrow> Inl e
                     | Inr heap'' \<Rightarrow> Inr (heap'', root)))
             else Inr (heap, item))
      else Inr (heap, item))"

section \<open>Priority, Device, Probe and Node\<close>

text \<open>
  \<^verbatim>\<open>class Priority(IntEnum): MIN, MIN_MED, MED, MED_MAX, MAX = range(1, 5 + 1)\<close>
  (\<open>MIN\<close> and \<open>MAX\<close> are reserved syntax of HOL, hence the suffix).
\<close>

datatype Priority = MIN_prio | MIN_MED | MED | MED_MAX | MAX_prio

fun priority_value :: "Priority \<Rightarrow> int" where
  "priority_value MIN_prio = 1"
| "priority_value MIN_MED = 2"
| "priority_value MED = 3"
| "priority_value MED_MAX = 4"
| "priority_value MAX_prio = 5"

text \<open>
  Objects live in a store and are referred to by their \<^verbatim>\<open>id\<close>: \<^verbatim>\<open>Node.last_id\<close> and
  \<^verbatim>\<open>Device.last_id\<close> give every object its own id, and \<^verbatim>\<open>__eq__\<close> of both classes
  compares ids. A node reference and a device reference are therefore the id, a \<open>nat\<close>.

  A Probe holds \<^verbatim>\<open>distance\<close>, \<^verbatim>\<open>frontier\<close> (a dict from distance to a set of nodes; a
  Python dict keeps insertion order, which \<^verbatim>\<open>list(self.frontier.keys())[-1]\<close> reads, so
  it is an association list in insertion order) and \<^verbatim>\<open>visited\<close>.
\<close>

record Probe =
  distance :: nat
  frontier :: "(nat \<times> nat set) list"
  visited :: "nat set"

record Device =
  priority :: Priority
  connected_node :: nat
  probe :: Probe

record Node =
  resources :: int
  devices :: "nat list"
  neighbors :: "nat set"

text \<open>
  \<^verbatim>\<open>Device.__lt__\<close>: \<^verbatim>\<open>return self.priority.value < other.priority.value\<close>, on two
  device references of the store \<open>ds\<close>.
\<close>

definition Device_lt :: "(nat \<Rightarrow> Device) \<Rightarrow> nat \<Rightarrow> nat \<Rightarrow> bool" where
  "Device_lt ds self other =
     (priority_value (priority (ds self)) < priority_value (priority (ds other)))"

text \<open>
  \<^verbatim>\<open>
  def add_device(self, device):
      if len(self.devices) < self.resources:
          heapq.heappush(self.devices, device)
      else:
          popped_device = heapq.heappushpop(self.devices, device)
          return popped_device
      return None
  \<close>
  The model returns the node after the call and the returned value.
\<close>

definition add_device :: "(nat \<Rightarrow> Device) \<Rightarrow> Node \<Rightarrow> nat \<Rightarrow> error + (Node \<times> nat option)" where
  "add_device ds self device =
     (if int (length (devices self)) < resources self then
        (case heappush (Device_lt ds) (devices self) device of
           Inl e \<Rightarrow> Inl e
         | Inr heap' \<Rightarrow> Inr (self\<lparr>devices := heap'\<rparr>, None))
      else
        (case heappushpop (Device_lt ds) (devices self) device of
           Inl e \<Rightarrow> Inl e
         | Inr (heap', popped_device) \<Rightarrow> Inr (self\<lparr>devices := heap'\<rparr>, Some popped_device)))"

text \<open>
  The constructors. \<^verbatim>\<open>Probe.__init__(node)\<close> sets \<^verbatim>\<open>distance = 0\<close>,
  \<^verbatim>\<open>frontier = {0: {node}}\<close>, \<^verbatim>\<open>visited = set()\<close>; \<^verbatim>\<open>Device.__init__(node)\<close> draws the
  priority with \<^verbatim>\<open>random.choice\<close> (the argument \<open>p\<close> here) and creates its own probe on
  \<^verbatim>\<open>node\<close>; \<^verbatim>\<open>Node.__init__(resources)\<close> starts with no device and no neighbor.
\<close>

definition Probe_init :: "nat \<Rightarrow> Probe" where
  "Probe_init node = \<lparr>distance = 0, frontier = [(0, {node})], visited = {}\<rparr>"

definition Device_init :: "Priority \<Rightarrow> nat \<Rightarrow> Device" where
  "Device_init p node = \<lparr>priority = p, connected_node = node, probe = Probe_init node\<rparr>"

definition Node_init :: "int \<Rightarrow> Node" where
  "Node_init r = \<lparr>resources = r, devices = [], neighbors = {}\<rparr>"

definition add_neighbor :: "Node \<Rightarrow> nat \<Rightarrow> Node" where
  "add_neighbor self node = self\<lparr>neighbors := insert node (neighbors self)\<rparr>"

section \<open>get_resources\<close>

text \<open>
  \<^verbatim>\<open>random.sample(population, k)\<close>, for the population \<^verbatim>\<open>range(start, stop)\<close> that
  \<^verbatim>\<open>constrained_sum_sample_pos\<close> passes. It begins with \<^verbatim>\<open>n = len(population)\<close>; the
  length of a range is a C \<^verbatim>\<open>Py_ssize_t\<close>, and \<^verbatim>\<open>len\<close> raises OverflowError when the range
  has more than \<^verbatim>\<open>sys.maxsize\<close> elements (\<open>2^63 - 1\<close> on the 64-bit CPython the package
  targets). Then it raises ValueError unless \<open>0 \<le> k \<le> n\<close>, and otherwise returns \<open>k\<close>
  elements at distinct positions. The random draws are the list \<open>rs\<close>; each draw picks a
  position among the elements left. Running out of memory for the lists (MemoryError) is
  outside the model.
\<close>

definition sys_maxsize :: int where
  "sys_maxsize = 2 ^ 63 - 1"

definition range_len :: "int \<Rightarrow> int \<Rightarrow> error + int" where
  "range_len start stop =
     (let n = (if start < stop then stop - start else 0)
      in if sys_maxsize < n then Inl OverflowError else Inr n)"

fun sample_picks :: "nat list \<Rightarrow> 'a list \<Rightarrow> nat \<Rightarrow> 'a list" where
  "sample_picks rs pop 0 = []"
| "sample_picks rs pop (Suc k) =
     (if pop = [] then []
      else (let i = (case rs of [] \<Rightarrow> 0 | r # _ \<Rightarrow> r mod length pop)
            in pop ! i # sample_picks (tl rs) (take i pop @ drop (Suc i) pop) k))"

definition random_sample :: "nat list \<Rightarrow> int \<Rightarrow> int \<Rightarrow> int \<Rightarrow> error + int list" where
  "random_sample rs start stop k =
     (case range_len start stop of
        Inl e \<Rightarrow> Inl e
      | Inr n \<Rightarrow>
          if 0 \<le> k \<and> k \<le> n then Inr (sample_picks rs [start..stop - 1] (nat k))
          else Inl ValueError)"

text \<open>
  \<^verbatim>\<open>
  def constrained_sum_sample_pos(n, total):
      dividers = sorted(random.sample(range(1, total), n - 1))
      return [a - b for a, b in zip(dividers + [total], [0] + dividers)]

  def get_resources(N, U):
      if U < N:
          raise ValueError('The number of devices must be greater or equal than ...')
      return constrained_sum_sample_pos(N, U)
  \<close>
\<close>

definition constrained_sum_sample_pos :: "nat list \<Rightarrow> int \<Rightarrow> int \<Rightarrow> error + int list" where
  "constrained_sum_sample_pos rs n total' =
     (case random_sample rs 1 total' (n - 1) of
        Inl e \<Rightarrow> Inl e
      | Inr sample \<Rightarrow>
          (let dividers = sort sample
           in Inr (map (\<lambda>(a, b). a - b) (zip (dividers @ [total']) (0 # dividers)))))"

definition get_resources :: "nat list \<Rightarrow> int \<Rightarrow> int \<Rightarrow> error + int list" where
  "get_resources rs N U =
     (if U < N then Inl ValueError else constrained_sum_sample_pos rs N U)"

section \<open>Probe.find_node\<close>

text \<open>
  \<^verbatim>\<open>rand_from_set(rset)\<close> is \<^verbatim>\<open>random.sample(rset, 1)[0]\<close>: ValueError on the empty set,
  otherwise the element at the drawn position \<open>r\<close>.
\<close>

definition rand_from_set :: "nat \<Rightarrow> nat set \<Rightarrow> error + nat" where
  "rand_from_set r rset =
     (if rset = {} then Inl ValueError
      else Inr (sorted_list_of_set rset ! (r mod card rset)))"

text \<open>
  The dict operations that \<^verbatim>\<open>find_node\<close> uses on \<^verbatim>\<open>self.frontier\<close>:
  \<^verbatim>\<open>list(d.keys())[-1]\<close>, \<^verbatim>\<open>d[k]\<close> and \<^verbatim>\<open>d.setdefault(k, v)\<close>. Storing under a key that
  is present keeps its position (\<open>AList.update\<close>).
\<close>

definition dict_last_key :: "('k \<times> 'v) list \<Rightarrow> error + 'k" where
  "dict_last_key d = (if d = [] then Inl IndexError else Inr (fst (last d)))"

definition dict_getitem :: "('k \<times> 'v) list \<Rightarrow> 'k \<Rightarrow> error + 'v" where
  "dict_getitem d k = (case map_of d k of None \<Rightarrow> Inl KeyError | Some v \<Rightarrow> Inr v)"

definition dict_setdefault :: "('k \<times> 'v) list \<Rightarrow> 'k \<Rightarrow> 'v \<Rightarrow> ('k \<times> 'v) list" where
  "dict_setdefault d k v = (case map_of d k of None \<Rightarrow> d @ [(k, v)] | Some _ \<Rightarrow> d)"

text \<open>
  The store: every Node and every Device of the run, by id. The adjacency
  (\<^verbatim>\<open>neighbors\<close>), the capacities, the priorities and the origin nodes are fixed
  before the assignment; the assignment mutates \<^verbatim>\<open>Node.devices\<close> and the probes.
\<close>

record World =
  nodes :: "nat \<Rightarrow> Node"
  devs :: "nat \<Rightarrow> Device"

definition set_probe :: "World \<Rightarrow> nat \<Rightarrow> Probe \<Rightarrow> World" where
  "set_probe w device p = w\<lparr>devs := (devs w)(device := (devs w device)\<lparr>probe := p\<rparr>)\<rparr>"

text \<open>
  \<^verbatim>\<open>
  def find_node(self, device):
      self.distance = 0
      self.visited = set()
      while self.distance <= list(self.frontier.keys())[-1]:
          f = self.frontier[self.distance] - self.visited
          if f:
              n = rand_from_set(f)
              self.visited.add(n)
              self.frontier.setdefault(self.distance + 1, set())
              self.frontier[self.distance + 1].update(n.get_neighbors())
              d = n.add_device(device)
              if d is None:
                  break
              elif d != device:
                  d.assign_device()
                  break
          else:
              self.distance += 1
  \<close>
  \<^verbatim>\<open>self\<close> is the probe of \<^verbatim>\<open>device\<close> (\<^verbatim>\<open>assign_device\<close> calls
  \<^verbatim>\<open>self.probe.find_node(self)\<close>). \<open>find_node_enter\<close> is the two assignments before the
  loop. \<open>find_node_iter\<close> is one evaluation of the loop condition followed, when it
  holds, by one execution of the body, with the random draw \<open>r\<close>; it says how control
  leaves the iteration.
\<close>

datatype control = Continue | Break | Call nat | LoopExit

definition find_node_enter :: "World \<Rightarrow> nat \<Rightarrow> World" where
  "find_node_enter w device =
     set_probe w device ((probe (devs w device))\<lparr>distance := 0, visited := {}\<rparr>)"

definition find_node_iter :: "nat \<Rightarrow> World \<Rightarrow> nat \<Rightarrow> error + (control \<times> World)" where
  "find_node_iter r w device =
     (let self = probe (devs w device) in
      case dict_last_key (frontier self) of
        Inl e \<Rightarrow> Inl e
      | Inr last_key \<Rightarrow>
          if distance self \<le> last_key then
            (case dict_getitem (frontier self) (distance self) of
               Inl e \<Rightarrow> Inl e
             | Inr ring \<Rightarrow>
                 (let f = ring - visited self in
                  if f \<noteq> {} then
                    (case rand_from_set r f of
                       Inl e \<Rightarrow> Inl e
                     | Inr n \<Rightarrow>
                         (let fr = dict_setdefault (frontier self) (distance self + 1) {} in
                          case dict_getitem fr (distance self + 1) of
                            Inl e \<Rightarrow> Inl e
                          | Inr s \<Rightarrow>
                              (let w1 = set_probe w device
                                     (self\<lparr>visited := insert n (visited self),
                                           frontier := AList.update (distance self + 1)
                                                         (s \<union> neighbors (nodes w n)) fr\<rparr>)
                               in case add_device (devs w1) (nodes w1 n) device of
                                    Inl e \<Rightarrow> Inl e
                                  | Inr (node', d) \<Rightarrow>
                                      (let w2 = w1\<lparr>nodes := (nodes w1)(n := node')\<rparr>
                                       in case d of
                                            None \<Rightarrow> Inr (Break, w2)
                                          | Some d' \<Rightarrow>
                                              if d' \<noteq> device then Inr (Call d', w2)
                                              else Inr (Continue, w2)))))
                  else Inr (Continue, set_probe w device (self\<lparr>distance := distance self + 1\<rparr>))))
          else Inr (LoopExit, w))"

text \<open>
  Running searches. A configuration is the store and the stack of the devices whose
  \<^verbatim>\<open>find_node\<close> is active, innermost first. One step is one iteration of the innermost
  loop. \<^verbatim>\<open>d.assign_device()\<close> enters \<^verbatim>\<open>find_node\<close> for the evicted device. Every
  suspended caller waits in \<^verbatim>\<open>d.assign_device()\<close> and its next statement is
  \<^verbatim>\<open>break\<close>, after which it returns: when the innermost loop ends, every frame ends.
\<close>

definition step :: "nat \<Rightarrow> World \<times> nat list \<Rightarrow> error + (World \<times> nat list)" where
  "step r c =
     (case c of
        (w, []) \<Rightarrow> Inr (w, [])
      | (w, device # callers) \<Rightarrow>
          (case find_node_iter r w device of
             Inl e \<Rightarrow> Inl e
           | Inr (Continue, w') \<Rightarrow> Inr (w', device # callers)
           | Inr (Break, w') \<Rightarrow> Inr (w', [])
           | Inr (Call d, w') \<Rightarrow> Inr (find_node_enter w' d, d # device # callers)
           | Inr (LoopExit, w') \<Rightarrow> Inr (w', [])))"

fun run :: "nat list \<Rightarrow> World \<times> nat list \<Rightarrow> error + (World \<times> nat list)" where
  "run [] c = Inr c"
| "run (r # rs) c = (case step r c of Inl e \<Rightarrow> Inl e | Inr c' \<Rightarrow> run rs c')"

text \<open>\<^verbatim>\<open>Device.assign_device\<close>: \<^verbatim>\<open>self.probe.find_node(self)\<close>, started.\<close>

definition assign_device :: "World \<Rightarrow> nat \<Rightarrow> World \<times> nat list" where
  "assign_device w device = (find_node_enter w device, [device])"

section \<open>Specification vocabulary\<close>

text \<open>
  The heap invariant of \<^verbatim>\<open>heapq\<close> for a key \<open>k\<close> (\<^verbatim>\<open>heap[(i-1)//2] <= heap[i]\<close>), and
  the two loop invariants of the sift loops: \<open>hole_ok\<close> for \<^verbatim>\<open>_siftdown\<close>, whose
  position \<open>pos\<close> waits for \<open>x\<close>, and \<open>up_ok\<close> for the loop of \<^verbatim>\<open>_siftup\<close>.
\<close>

definition heap_ok :: "('a \<Rightarrow> 'b::linorder) \<Rightarrow> 'a list \<Rightarrow> bool" where
  "heap_ok k h = (\<forall>i. 0 < i \<and> i < length h \<longrightarrow> k (h ! ((i - 1) div 2)) \<le> k (h ! i))"

definition hole_ok :: "('a \<Rightarrow> 'b::linorder) \<Rightarrow> 'a list \<Rightarrow> nat \<Rightarrow> 'a \<Rightarrow> bool" where
  "hole_ok k h pos x =
     (pos < length h \<and>
      (\<forall>i. 0 < i \<and> i < length h \<and> i \<noteq> pos \<and> (i - 1) div 2 \<noteq> pos \<longrightarrow> k (h ! ((i - 1) div 2)) \<le> k (h ! i)) \<and>
      (\<forall>c. 0 < c \<and> c < length h \<and> (c - 1) div 2 = pos \<longrightarrow>
           k x \<le> k (h ! c) \<and> (0 < pos \<longrightarrow> k (h ! ((pos - 1) div 2)) \<le> k (h ! c))))"

definition up_ok :: "('a \<Rightarrow> 'b::linorder) \<Rightarrow> 'a list \<Rightarrow> nat \<Rightarrow> bool" where
  "up_ok k h pos =
     ((\<forall>i. 0 < i \<and> i < length h \<and> (i - 1) div 2 \<noteq> pos \<longrightarrow> k (h ! ((i - 1) div 2)) \<le> k (h ! i)) \<and>
      (\<forall>c. 0 < c \<and> c < length h \<and> (c - 1) div 2 = pos \<and> 0 < pos \<longrightarrow>
           k (h ! ((pos - 1) div 2)) \<le> k (h ! c)))"

text \<open>The key of a device reference: the value of its priority.\<close>

definition prio_of :: "(nat \<Rightarrow> Device) \<Rightarrow> nat \<Rightarrow> int" where
  "prio_of ds d = priority_value (priority (ds d))"

text \<open>A sequence of \<^verbatim>\<open>add_device\<close> calls on one node.\<close>

fun add_devices :: "(nat \<Rightarrow> Device) \<Rightarrow> Node \<Rightarrow> nat list \<Rightarrow> error + Node" where
  "add_devices ds self [] = Inr self"
| "add_devices ds self (d # xs) =
     (case add_device ds self d of Inl e \<Rightarrow> Inl e | Inr (self', _) \<Rightarrow> add_devices ds self' xs)"

text \<open>Example data: device 5 has priority MED, devices 7 and 9 have MAX, every other device
  MIN; the origin of all is node 0.\<close>

definition ds0 :: "nat \<Rightarrow> Device" where
  "ds0 i = Device_init (if i = 5 then MED else if i = 7 \<or> i = 9 then MAX_prio else MIN_prio) 0"

text \<open>
  The graph of a store is its adjacency \<open>nbrs w\<close>. \<open>reachable g orig\<close> are the nodes
  reachable from \<open>orig\<close> along \<open>g\<close>; \<open>ball g orig k\<close> are those within \<open>k\<close> edges and
  \<open>sphere g orig k\<close> those at exactly \<open>k\<close> edges.
\<close>

definition nbrs :: "World \<Rightarrow> nat \<Rightarrow> nat set" where
  "nbrs w n = neighbors (nodes w n)"

definition reachable :: "(nat \<Rightarrow> nat set) \<Rightarrow> nat \<Rightarrow> nat set" where
  "reachable g orig = {n. (orig, n) \<in> {(a, b). b \<in> g a}\<^sup>*}"

fun ball :: "(nat \<Rightarrow> nat set) \<Rightarrow> nat \<Rightarrow> nat \<Rightarrow> nat set" where
  "ball g orig 0 = {orig}"
| "ball g orig (Suc k) = ball g orig k \<union> (\<Union>n \<in> ball g orig k. g n)"

fun sphere :: "(nat \<Rightarrow> nat set) \<Rightarrow> nat \<Rightarrow> nat \<Rightarrow> nat set" where
  "sphere g orig 0 = {orig}"
| "sphere g orig (Suc k) = ball g orig (Suc k) - ball g orig k"

text \<open>The entry of the frontier at a distance; the empty set when the key is absent.\<close>

definition fr_at :: "Probe \<Rightarrow> nat \<Rightarrow> nat set" where
  "fr_at p k = (case map_of (frontier p) k of None \<Rightarrow> {} | Some s \<Rightarrow> s)"

text \<open>
  What holds of every probe at every moment of a run (\<open>probe_ok\<close>, for the adjacency
  \<open>g\<close> and the origin node of the probe's device): the keys of the frontier are
  \<open>0, 1, ..., K\<close> in this order, entry 0 is the origin alone, entry \<open>j\<close> lies within
  \<open>j\<close> edges of the origin, and a key \<open>j + 1\<close> exists only if some node is at exactly
  \<open>j\<close> edges. \<open>world_ok V w\<close>: the nodes \<open>V\<close> of the graph are finitely many, every
  adjacency set lies within them, every device has its origin among them, every probe
  is as above.
\<close>

definition probe_ok :: "(nat \<Rightarrow> nat set) \<Rightarrow> nat \<Rightarrow> Probe \<Rightarrow> bool" where
  "probe_ok g orig p =
     (frontier p \<noteq> [] \<and> map fst (frontier p) = [0..<length (frontier p)] \<and>
      map_of (frontier p) 0 = Some {orig} \<and>
      (\<forall>j S. map_of (frontier p) j = Some S \<longrightarrow> S \<subseteq> ball g orig j) \<and>
      (\<forall>j. Suc j < length (frontier p) \<longrightarrow> sphere g orig j \<noteq> {}))"

definition world_ok :: "nat set \<Rightarrow> World \<Rightarrow> bool" where
  "world_ok V w =
     (finite V \<and> (\<forall>n. nbrs w n \<subseteq> V) \<and>
      (\<forall>d. connected_node (devs w d) \<in> V \<and>
           probe_ok (nbrs w) (connected_node (devs w d)) (probe (devs w d))))"

text \<open>
  What holds of the probe of a device while its \<^verbatim>\<open>find_node\<close> runs (\<open>search_ok\<close>): the
  nodes nearer than the current distance are all visited, a visited node lies at some
  number \<open>i\<close> of edges not above the current distance and its neighbours are in entry
  \<open>i + 1\<close>, and the nodes at exactly the current distance are in the current entry.
\<close>

definition search_ok :: "World \<Rightarrow> nat \<Rightarrow> bool" where
  "search_ok w device =
     (let p = probe (devs w device); orig = connected_node (devs w device); g = nbrs w in
      distance p \<le> length (frontier p) \<and>
      (\<forall>j < distance p. sphere g orig j \<subseteq> visited p) \<and>
      (\<forall>n \<in> visited p. \<exists>i \<le> distance p. n \<in> sphere g orig i \<and> g n \<subseteq> fr_at p (Suc i)) \<and>
      (distance p < length (frontier p) \<longrightarrow> sphere g orig (distance p) \<subseteq> fr_at p (distance p)))"

definition config_ok :: "nat set \<Rightarrow> World \<times> nat list \<Rightarrow> bool" where
  "config_ok V c =
     (case c of (w, st) \<Rightarrow> world_ok V w \<and> (case st of [] \<Rightarrow> True | d # _ \<Rightarrow> search_ok w d))"

text \<open>
  The probes of a run, for stating what a search visits: \<open>visit_of r w device\<close> is the
  distance and the node that the iteration \<open>find_node_iter r w device\<close> probes, if it
  probes one; \<open>visits rs c\<close> lists, for the run of \<open>rs\<close> from \<open>c\<close>, the device, the
  distance and the node of every probe, in order.
\<close>

definition visit_of :: "nat \<Rightarrow> World \<Rightarrow> nat \<Rightarrow> (nat \<times> nat) option" where
  "visit_of r w device =
     (let self = probe (devs w device) in
      case dict_last_key (frontier self) of
        Inl e \<Rightarrow> None
      | Inr last_key \<Rightarrow>
          if distance self \<le> last_key then
            (case dict_getitem (frontier self) (distance self) of
               Inl e \<Rightarrow> None
             | Inr ring \<Rightarrow>
                 if ring - visited self \<noteq> {} then
                   (case rand_from_set r (ring - visited self) of
                      Inl e \<Rightarrow> None
                    | Inr n \<Rightarrow> Some (distance self, n))
                 else None)
          else None)"

fun visits :: "nat list \<Rightarrow> World \<times> nat list \<Rightarrow> (nat \<times> nat \<times> nat) list" where
  "visits [] c = []"
| "visits (r # rs) c =
     (case c of
        (w, []) \<Rightarrow> []
      | (w, device # callers) \<Rightarrow>
          (case visit_of r w device of None \<Rightarrow> [] | Some (d, n) \<Rightarrow> [(device, d, n)])) @
     (case step r c of Inl e \<Rightarrow> [] | Inr c' \<Rightarrow> visits rs c')"

text \<open>
  The assignment phase of \<^verbatim>\<open>main\<close>:
  \<^verbatim>\<open>
  for d in devices:
      executor.submit(d.assign_device())
  \<close>
  The argument of \<^verbatim>\<open>submit\<close> is the call \<^verbatim>\<open>d.assign_device()\<close> itself, evaluated in the
  main thread before \<^verbatim>\<open>submit\<close> runs, so the searches run one after the other, in the
  iteration order of the set \<^verbatim>\<open>devices\<close>: the list \<open>pending\<close> of distinct devices. A phase
  configuration is a configuration and the devices still to start.
\<close>

definition phase_step ::
  "nat \<Rightarrow> (World \<times> nat list) \<times> nat list \<Rightarrow> error + ((World \<times> nat list) \<times> nat list)" where
  "phase_step r pc =
     (case pc of
        ((w, []), []) \<Rightarrow> Inr pc
      | ((w, []), d # pending) \<Rightarrow> Inr (assign_device w d, pending)
      | ((w, device # callers), pending) \<Rightarrow>
          (case step r (w, device # callers) of
             Inl e \<Rightarrow> Inl e
           | Inr c' \<Rightarrow> Inr (c', pending)))"

fun phase_run ::
  "nat list \<Rightarrow> (World \<times> nat list) \<times> nat list \<Rightarrow> error + ((World \<times> nat list) \<times> nat list)" where
  "phase_run [] pc = Inr pc"
| "phase_run (r # rs) pc =
     (case phase_step r pc of Inl e \<Rightarrow> Inl e | Inr pc' \<Rightarrow> phase_run rs pc')"

text \<open>No device is in two collections, nor twice in one.\<close>

definition no_dup :: "World \<Rightarrow> bool" where
  "no_dup w =
     ((\<forall>n. distinct (devices (nodes w n))) \<and>
      (\<forall>n m. n \<noteq> m \<longrightarrow> set (devices (nodes w n)) \<inter> set (devices (nodes w m)) = {}))"

text \<open>
  Example store: nodes 0, 1, 2, 3 of capacity 1 with edges 0-1, 0-2 and 1-3, and the
  devices of \<open>ds0\<close>.
\<close>

definition nodes_ex :: "nat \<Rightarrow> Node" where
  "nodes_ex n = \<lparr>resources = 1, devices = [],
      neighbors = (if n = 0 then {1, 2} else if n = 1 then {0, 3} else if n = 2 then {0}
                   else if n = 3 then {1} else {})\<rparr>"

definition w_ex :: World where
  "w_ex = \<lparr>nodes = nodes_ex, devs = ds0\<rparr>"

text \<open>What a probe of a node does to the frontier: \<^verbatim>\<open>setdefault\<close>, then \<^verbatim>\<open>update\<close>.\<close>

definition frontier_add :: "(nat \<times> nat set) list \<Rightarrow> nat \<Rightarrow> nat set \<Rightarrow> (nat \<times> nat set) list" where
  "frontier_add fr k N =
     AList.update k ((case map_of fr k of None \<Rightarrow> {} | Some s \<Rightarrow> s) \<union> N) (dict_setdefault fr k {})"

text \<open>
  The invariant of the assignment phase: no device is held twice, and neither the
  devices still to start nor the device whose search is running are held by a node.
\<close>

definition phase_inv :: "(World \<times> nat list) \<times> nat list \<Rightarrow> bool" where
  "phase_inv pc =
     (case pc of ((w, st), pend) \<Rightarrow>
        no_dup w \<and> distinct pend \<and> (\<forall>n. set (devices (nodes w n)) \<inter> set pend = {}) \<and>
        (\<forall>d callers. st = d # callers \<longrightarrow> d \<notin> set pend \<and> (\<forall>n. d \<notin> set (devices (nodes w n)))))"

text \<open>The store and the stack that a run of the phase ends with.\<close>

definition world_after :: "nat list \<Rightarrow> (World \<times> nat list) \<times> nat list \<Rightarrow> World" where
  "world_after rs pc = (case phase_run rs pc of Inr ((w, st), pend) \<Rightarrow> w | Inl e \<Rightarrow> fst (fst pc))"

definition stack_after :: "nat list \<Rightarrow> (World \<times> nat list) \<times> nat list \<Rightarrow> nat list" where
  "stack_after rs pc = (case phase_run rs pc of Inr ((w, st), pend) \<Rightarrow> st | Inl e \<Rightarrow> [])"

text \<open>
  Python sets are finite: \<open>fin_ok w device\<close> says so of the adjacency sets and of the
  frontier entries of the probe of \<open>device\<close>. \<open>visited_at log device d\<close> are the nodes
  that the log of a run records as probed by \<open>device\<close> at distance \<open>d\<close>.
\<close>

definition fin_ok :: "World \<Rightarrow> nat \<Rightarrow> bool" where
  "fin_ok w device =
     ((\<forall>n. finite (nbrs w n)) \<and>
      (\<forall>j S. map_of (frontier (probe (devs w device))) j = Some S \<longrightarrow> finite S))"

definition visited_at :: "(nat \<times> nat \<times> nat) list \<Rightarrow> nat \<Rightarrow> nat \<Rightarrow> nat set" where
  "visited_at log device d =
     set (map (\<lambda>e. snd (snd e)) (filter (\<lambda>e. fst e = device \<and> fst (snd e) = d) log))"

text \<open>
  Two more example stores: \<open>w_held\<close> is \<open>w_ex\<close> with device 9 (MAX) already on node 0;
  \<open>w_iso\<close> has node 0 alone, of capacity 1, without neighbours and empty.
\<close>

definition w_held :: World where
  "w_held = w_ex\<lparr>nodes := nodes_ex(0 := (nodes_ex 0)\<lparr>devices := [9]\<rparr>)\<rparr>"

definition w_iso :: World where
  "w_iso = \<lparr>nodes = (\<lambda>n. \<lparr>resources = 1, devices = [], neighbors = {}\<rparr>), devs = ds0\<rparr>"

text \<open>
  What the log of a search says of the probe, from the store \<open>w0\<close> at the start of the
  logged run to the store \<open>w1\<close> at its end.
\<close>

definition search_log_ok :: "World \<Rightarrow> nat \<Rightarrow> (nat \<times> nat \<times> nat) list \<Rightarrow> World \<Rightarrow> bool" where
  "search_log_ok w0 device log w1 =
     (nbrs w1 = nbrs w0 \<and> fin_ok w1 device \<and>
      (\<forall>e \<in> set log. fst e = device \<and> snd (snd e) \<notin> visited (probe (devs w0 device))) \<and>
      distinct (map (\<lambda>e. snd (snd e)) log) \<and>
      visited (probe (devs w1 device)) =
        visited (probe (devs w0 device)) \<union> (\<lambda>e. snd (snd e)) ` set log \<and>
      (\<forall>k. fr_at (probe (devs w1 device)) (Suc k) =
            fr_at (probe (devs w0 device)) (Suc k) \<union> (\<Union>n \<in> visited_at log device k. nbrs w0 n)))"

text \<open>
  \<open>probe_search_ok\<close> is \<open>search_ok\<close> on the probe alone. \<open>phi\<close> counts the iterations of
  the running search of a device that continued the loop: each of them either adds a
  node to \<open>visited\<close> or adds 1 to \<open>distance\<close>. \<open>pot\<close> bounds the iterations left in a
  cascade: an evicted device has a strictly lower priority than the device that evicts
  it, and there are five priorities.
\<close>

definition probe_search_ok :: "(nat \<Rightarrow> nat set) \<Rightarrow> nat \<Rightarrow> Probe \<Rightarrow> bool" where
  "probe_search_ok g orig p =
     (distance p \<le> length (frontier p) \<and>
      (\<forall>j < distance p. sphere g orig j \<subseteq> visited p) \<and>
      (\<forall>n \<in> visited p. \<exists>i \<le> distance p. n \<in> sphere g orig i \<and> g n \<subseteq> fr_at p (Suc i)) \<and>
      (distance p < length (frontier p) \<longrightarrow> sphere g orig (distance p) \<subseteq> fr_at p (distance p)))"

definition phi :: "World \<Rightarrow> nat \<Rightarrow> nat" where
  "phi w d = card (visited (probe (devs w d))) + distance (probe (devs w d))"

definition pot :: "nat set \<Rightarrow> World \<times> nat list \<Rightarrow> nat" where
  "pot V c =
     (case c of
        (w, []) \<Rightarrow> 0
      | (w, d # _) \<Rightarrow> nat (prio_of (devs w) d) * (2 * card V + 2) - phi w d)"

text \<open>What a run never changes: the adjacency, the priorities and the origins.\<close>

definition same_graph :: "World \<Rightarrow> World \<Rightarrow> bool" where
  "same_graph w w' =
     (nbrs w' = nbrs w \<and>
      (\<forall>d. priority (devs w' d) = priority (devs w d) \<and>
           connected_node (devs w' d) = connected_node (devs w d)))"

text \<open>
  Every collection of the store is a heap for the priorities (\<open>heaps_ok\<close>). Example data
  for a node with room for three: in \<open>ds1\<close> device 1 has priority MIN, devices 2 and 6
  MIN_MED, device 3 MED, device 4 MED_MAX and every other device MAX; \<open>w_room\<close> is the
  graph of \<open>w_ex\<close> with capacity 3 on node 0.
\<close>

definition heaps_ok :: "World \<Rightarrow> bool" where
  "heaps_ok w = (\<forall>n. heap_ok (prio_of (devs w)) (devices (nodes w n)))"

definition ds1 :: "nat \<Rightarrow> Device" where
  "ds1 i = Device_init (if i = 1 then MIN_prio else if i = 2 \<or> i = 6 then MIN_MED
                        else if i = 3 then MED else if i = 4 then MED_MAX else MAX_prio) 0"

definition w_room :: World where
  "w_room = \<lparr>nodes = nodes_ex(0 := (nodes_ex 0)\<lparr>resources := 3\<rparr>), devs = ds1\<rparr>"

text \<open>
  The store as \<^verbatim>\<open>main\<close> builds it before the assignment (\<open>init_ok V w\<close>): finitely many
  nodes \<open>V\<close>, every adjacency set within them, no device on any node, and every device
  with its origin among the nodes and the probe that \<^verbatim>\<open>Device.__init__\<close> creates.
  \<open>placed w d\<close>: some node holds the device \<open>d\<close>.
\<close>

definition init_ok :: "nat set \<Rightarrow> World \<Rightarrow> bool" where
  "init_ok V w =
     (finite V \<and> (\<forall>n. nbrs w n \<subseteq> V) \<and> (\<forall>n. devices (nodes w n) = []) \<and>
      (\<forall>d. connected_node (devs w d) \<in> V \<and>
           probe (devs w d) = Probe_init (connected_node (devs w d))))"

definition placed :: "World \<Rightarrow> nat \<Rightarrow> bool" where
  "placed w d = (\<exists>n. d \<in> set (devices (nodes w n)))"

section \<open>Properties of the heap functions\<close>

lemma siftdown_loop_total:
  "pos < length h \<Longrightarrow> \<exists>h'. siftdown_loop lt h s x pos = Inr h' \<and> length h' = length h"
proof (induction pos arbitrary: h rule: less_induct)
  case (less pos)
  show ?case
  proof (cases "pos > s \<and> lt x (h ! ((pos - 1) div 2))")
    case True
    then have p: "(pos - 1) div 2 < pos" by auto
    have "(pos - 1) div 2 < length (h[pos := h ! ((pos - 1) div 2)])" using p less.prems by simp
    from less.IH[OF p this] show ?thesis using True less.prems p
      by (subst siftdown_loop.simps) (simp add: getitem_def setitem_def)
  next
    case False
    then show ?thesis using less.prems
      by (subst siftdown_loop.simps) (auto simp add: getitem_def setitem_def)
  qed
qed

lemma siftdown_loop_mset:
  "pos < length h \<Longrightarrow> siftdown_loop lt h s x pos = Inr h' \<Longrightarrow> mset h' = mset (h[pos := x])"
proof (induction pos arbitrary: h rule: less_induct)
  case (less pos)
  show ?case
  proof (cases "pos > s \<and> lt x (h ! ((pos - 1) div 2))")
    case True
    let ?p = "(pos - 1) div 2"
    have p: "?p < pos" using True by auto
    have l: "?p < length (h[pos := h ! ?p])" using p less.prems by simp
    have r: "siftdown_loop lt (h[pos := h ! ?p]) s x ?p = Inr h'"
      using less.prems True p by (subst (asm) siftdown_loop.simps) (simp add: getitem_def setitem_def)
    have "mset h' = mset (h[pos := h ! ?p, ?p := x])" using less.IH[OF p l r] .
    also have "h[pos := h ! ?p, ?p := x] = (h[pos := x])[pos := (h[pos := x]) ! ?p, ?p := (h[pos := x]) ! pos]"
      using p less.prems by simp
    also have "mset \<dots> = mset (h[pos := x])"
      using p less.prems by (intro mset_swap) auto
    finally show ?thesis .
  next
    case False
    then show ?thesis using less.prems
      by (subst (asm) siftdown_loop.simps) (auto simp add: getitem_def setitem_def split: if_splits)
  qed
qed

lemma hole_ok_step:
  assumes ok: "hole_ok k h pos x" and pos: "0 < pos" and lt: "k x < k (h ! ((pos - 1) div 2))"
  shows "hole_ok k (h[pos := h ! ((pos - 1) div 2)]) ((pos - 1) div 2) x"
proof -
  let ?p = "(pos - 1) div 2"
  let ?h = "h[pos := h ! ?p]"
  have len: "pos < length h" using ok by (simp add: hole_ok_def)
  have p: "?p < pos" using pos by auto
  have A: "\<And>i. 0 < i \<Longrightarrow> i < length h \<Longrightarrow> i \<noteq> pos \<Longrightarrow> (i - 1) div 2 \<noteq> pos \<Longrightarrow> k (h ! ((i - 1) div 2)) \<le> k (h ! i)"
    using ok by (simp add: hole_ok_def)
  have B: "\<And>c. 0 < c \<Longrightarrow> c < length h \<Longrightarrow> (c - 1) div 2 = pos \<Longrightarrow> k (h ! ?p) \<le> k (h ! c)"
    using ok pos by (simp add: hole_ok_def)
  have C: "\<And>c. 0 < c \<Longrightarrow> c < length h \<Longrightarrow> (c - 1) div 2 = ?p \<Longrightarrow> k (h ! ?p) \<le> k (?h ! c)"
  proof -
    fix c assume c: "0 < c" "c < length h" "(c - 1) div 2 = ?p"
    show "k (h ! ?p) \<le> k (?h ! c)"
    proof (cases "c = pos")
      case True then show ?thesis using len by simp
    next
      case False
      then have "k (h ! ((c - 1) div 2)) \<le> k (h ! c)" using A[of c] c p by simp
      then show ?thesis using False c by simp
    qed
  qed
  show ?thesis unfolding hole_ok_def
  proof (intro conjI allI impI)
    show "?p < length ?h" using p len by simp
  next
    fix i assume a: "0 < i \<and> i < length ?h \<and> i \<noteq> ?p \<and> (i - 1) div 2 \<noteq> ?p"
    then have ip: "i \<noteq> pos" by auto
    show "k (?h ! ((i - 1) div 2)) \<le> k (?h ! i)"
    proof (cases "(i - 1) div 2 = pos")
      case True
      then show ?thesis using a ip len B[of i] by simp
    next
      case False
      then show ?thesis using a ip A[of i] by simp
    qed
  next
    fix c assume a: "0 < c \<and> c < length ?h \<and> (c - 1) div 2 = ?p"
    have "k (h ! ?p) \<le> k (?h ! c)" using C[of c] a by simp
    then show "k x \<le> k (?h ! c)" using lt by simp
  next
    fix c assume a: "0 < c \<and> c < length ?h \<and> (c - 1) div 2 = ?p" and pp: "0 < ?p"
    have pp': "(?p - 1) div 2 < ?p" using pp by auto
    have "k (h ! ((?p - 1) div 2)) \<le> k (h ! ?p)" using A[of ?p] pp pp' p len by simp
    moreover have "k (h ! ?p) \<le> k (?h ! c)" using C[of c] a by simp
    moreover have "?h ! ((?p - 1) div 2) = h ! ((?p - 1) div 2)" using pp' p by simp
    ultimately show "k (?h ! ((?p - 1) div 2)) \<le> k (?h ! c)" by simp
  qed
qed

lemma hole_ok_fill:
  assumes ok: "hole_ok k h pos x" and stop: "\<not> (0 < pos \<and> k x < k (h ! ((pos - 1) div 2)))"
  shows "heap_ok k (h[pos := x])"
  unfolding heap_ok_def
proof (intro allI impI)
  fix i assume a: "0 < i \<and> i < length (h[pos := x])"
  have len: "pos < length h" using ok by (simp add: hole_ok_def)
  show "k (h[pos := x] ! ((i - 1) div 2)) \<le> k (h[pos := x] ! i)"
  proof (cases "i = pos")
    case True
    then have "(i - 1) div 2 \<noteq> pos" using a by auto
    then show ?thesis using True a stop len by auto
  next
    case False
    show ?thesis
    proof (cases "(i - 1) div 2 = pos")
      case True
      then show ?thesis using ok a False len by (simp add: hole_ok_def)
    next
      case F2: False
      then show ?thesis using ok a False by (simp add: hole_ok_def)
    qed
  qed
qed

lemma siftdown_loop_heap:
  "hole_ok k h pos x \<Longrightarrow> siftdown_loop (\<lambda>a b. k a < k b) h 0 x pos = Inr h' \<Longrightarrow> heap_ok k h'"
proof (induction pos arbitrary: h rule: less_induct)
  case (less pos)
  have len: "pos < length h" using less.prems by (simp add: hole_ok_def)
  show ?case
  proof (cases "pos > 0 \<and> k x < k (h ! ((pos - 1) div 2))")
    case True
    let ?p = "(pos - 1) div 2"
    let ?h = "h[pos := h ! ?p]"
    have p: "?p < pos" using True by auto
    have r: "siftdown_loop (\<lambda>a b. k a < k b) ?h 0 x ?p = Inr h'"
      using less.prems True p len by (subst (asm) siftdown_loop.simps) (simp add: getitem_def setitem_def)
    have "hole_ok k ?h ?p x" using hole_ok_step[OF less.prems(1)] True by simp
    from less.IH[OF p this r] show ?thesis .
  next
    case False
    then have h': "h' = h[pos := x]" using less.prems len
      by (subst (asm) siftdown_loop.simps) (auto simp add: getitem_def setitem_def split: if_splits)
    show ?thesis unfolding h' using hole_ok_fill[OF less.prems(1) False] .
  qed
qed

lemma child_cases: "0 < (c::nat) \<Longrightarrow> (c - 1) div 2 = pos \<Longrightarrow> c = 2 * pos + 1 \<or> c = 2 * pos + 2"
  by arith

lemma smaller_child_spec:
  assumes "2 * pos + 1 < length h"
  shows "\<exists>c. smaller_child (\<lambda>a b. (k::'a \<Rightarrow> 'b::linorder) a < k b) h (length h) (2 * pos + 1) = Inr c \<and>
             c < length h \<and> 0 < c \<and> (c - 1) div 2 = pos \<and>
             (\<forall>i. 0 < i \<and> i < length h \<and> (i - 1) div 2 = pos \<longrightarrow> k (h ! c) \<le> k (h ! i))"
proof (cases "2 * pos + 2 < length h")
  case True
  show ?thesis
  proof (cases "k (h ! (2 * pos + 1)) < k (h ! (2 * pos + 2))")
    case L: True
    have "smaller_child (\<lambda>a b. k a < k b) h (length h) (2 * pos + 1) = Inr (2 * pos + 1)"
      using True L assms by (simp add: smaller_child_def getitem_def)
    moreover have "\<forall>i. 0 < i \<and> i < length h \<and> (i - 1) div 2 = pos \<longrightarrow> k (h ! (2 * pos + 1)) \<le> k (h ! i)"
    proof (intro allI impI)
      fix i assume a: "0 < i \<and> i < length h \<and> (i - 1) div 2 = pos"
      then have "i = 2 * pos + 1 \<or> i = 2 * pos + 2" using child_cases[of i pos] by simp
      then show "k (h ! (2 * pos + 1)) \<le> k (h ! i)" using L by auto
    qed
    ultimately show ?thesis using assms by auto
  next
    case R: False
    have "smaller_child (\<lambda>a b. k a < k b) h (length h) (2 * pos + 1) = Inr (2 * pos + 2)"
      using True R assms by (simp add: smaller_child_def getitem_def)
    moreover have "\<forall>i. 0 < i \<and> i < length h \<and> (i - 1) div 2 = pos \<longrightarrow> k (h ! (2 * pos + 2)) \<le> k (h ! i)"
    proof (intro allI impI)
      fix i assume a: "0 < i \<and> i < length h \<and> (i - 1) div 2 = pos"
      then have "i = 2 * pos + 1 \<or> i = 2 * pos + 2" using child_cases[of i pos] by simp
      then show "k (h ! (2 * pos + 2)) \<le> k (h ! i)" using R by auto
    qed
    ultimately show ?thesis using True by auto
  qed
next
  case False
  have "smaller_child (\<lambda>a b. k a < k b) h (length h) (2 * pos + 1) = Inr (2 * pos + 1)"
    using False assms by (simp add: smaller_child_def getitem_def)
  moreover have "\<forall>i. 0 < i \<and> i < length h \<and> (i - 1) div 2 = pos \<longrightarrow> k (h ! (2 * pos + 1)) \<le> k (h ! i)"
  proof (intro allI impI)
    fix i assume a: "0 < i \<and> i < length h \<and> (i - 1) div 2 = pos"
    then have "i = 2 * pos + 1" using child_cases[of i pos] False by auto
    then show "k (h ! (2 * pos + 1)) \<le> k (h ! i)" by simp
  qed
  ultimately show ?thesis using assms by auto
qed

lemma up_ok_step:
  assumes ok: "up_ok k h pos" and c: "c < length h" "0 < c" "(c - 1) div 2 = pos"
    and least: "\<forall>i. 0 < i \<and> i < length h \<and> (i - 1) div 2 = pos \<longrightarrow> k (h ! c) \<le> k (h ! i)"
  shows "up_ok k (h[pos := h ! c]) c"
proof -
  let ?h = "h[pos := h ! c]"
  have pc: "pos < c" using c by auto
  have len: "pos < length h" using pc c by simp
  have A: "\<And>i. 0 < i \<Longrightarrow> i < length h \<Longrightarrow> (i - 1) div 2 \<noteq> pos \<Longrightarrow> k (h ! ((i - 1) div 2)) \<le> k (h ! i)"
    using ok by (simp add: up_ok_def)
  have B: "0 < pos \<Longrightarrow> k (h ! ((pos - 1) div 2)) \<le> k (h ! c)"
    using ok c by (simp add: up_ok_def)
  show ?thesis unfolding up_ok_def
  proof (intro conjI allI impI)
    fix i assume a: "0 < i \<and> i < length ?h \<and> (i - 1) div 2 \<noteq> c"
    show "k (?h ! ((i - 1) div 2)) \<le> k (?h ! i)"
    proof (cases "i = pos")
      case True
      then have "(pos - 1) div 2 \<noteq> pos" using a by auto
      then show ?thesis using True a B len by simp
    next
      case False
      show ?thesis
      proof (cases "(i - 1) div 2 = pos")
        case True
        then show ?thesis using a False least len by simp
      next
        case F: False
        then show ?thesis using a False A[of i] by simp
      qed
    qed
  next
    fix d assume a: "0 < d \<and> d < length ?h \<and> (d - 1) div 2 = c \<and> 0 < c"
    then have "c < d" by auto
    then have dp: "d \<noteq> pos" using pc by simp
    have "k (h ! ((d - 1) div 2)) \<le> k (h ! d)" using A[of d] a pc by simp
    then show "k (?h ! ((c - 1) div 2)) \<le> k (?h ! d)" using a c dp len by simp
  qed
qed

lemma siftup_loop_spec:
  assumes "pos < length h"
  shows "\<exists>h' p. siftup_loop (\<lambda>a b. k a < k b) h (length h) pos = Inr (h', p) \<and> length h' = length h \<and>
           p < length h \<and> length h \<le> 2 * p + 1 \<and> mset (h'[p := x]) = mset (h[pos := x]) \<and>
           (up_ok k h pos \<longrightarrow> up_ok k h' p)"
  using assms
proof (induction "length h - pos" arbitrary: h pos rule: less_induct)
  case less
  show ?case
  proof (cases "2 * pos + 1 < length h")
    case False
    then show ?thesis using less.prems by (subst siftup_loop.simps) simp
  next
    case True
    from smaller_child_spec[OF True, of k] obtain c where
      c: "smaller_child (\<lambda>a b. k a < k b) h (length h) (2 * pos + 1) = Inr c"
         "c < length h" "0 < c" "(c - 1) div 2 = pos"
         "\<forall>i. 0 < i \<and> i < length h \<and> (i - 1) div 2 = pos \<longrightarrow> k (h ! c) \<le> k (h ! i)"
      by blast
    let ?h = "h[pos := h ! c]"
    have pc: "pos < c" using c by auto
    have m: "length ?h - c < length h - pos" using pc c by simp
    have cl: "c < length ?h" using c by simp
    from less.hyps[OF m cl] obtain h' p where
      r: "siftup_loop (\<lambda>a b. k a < k b) ?h (length ?h) c = Inr (h', p)" "length h' = length ?h"
         "p < length ?h" "length ?h \<le> 2 * p + 1" "mset (h'[p := x]) = mset (?h[c := x])"
         "up_ok k ?h c \<longrightarrow> up_ok k h' p"
      by blast
    have e: "siftup_loop (\<lambda>a b. k a < k b) h (length h) pos = Inr (h', p)"
      using True c r(1) less.prems by (subst siftup_loop.simps) (simp add: getitem_def setitem_def)
    have "?h[c := x] = (h[pos := x])[pos := (h[pos := x]) ! c, c := (h[pos := x]) ! pos]"
      using pc less.prems by simp
    also have "mset \<dots> = mset (h[pos := x])"
      using pc c less.prems by (intro mset_swap) auto
    finally have ms: "mset (h'[p := x]) = mset (h[pos := x])" using r(5) by simp
    have "up_ok k h pos \<longrightarrow> up_ok k h' p" using up_ok_step[OF _ c(2,3,4,5)] r(6) by blast
    then show ?thesis using e r ms by simp
  qed
qed

lemma heappush_spec:
  fixes k :: "'a \<Rightarrow> 'b::linorder"
  shows "\<exists>h'. heappush (\<lambda>a b. k a < k b) heap item = Inr h' \<and> mset h' = add_mset item (mset heap) \<and>
          (heap_ok k heap \<longrightarrow> heap_ok k h')"
proof -
  let ?h = "heap @ [item]"
  let ?n = "length heap"
  have n: "?n < length ?h" by simp
  from siftdown_loop_total[OF n, of "\<lambda>a b. k a < k b" 0 item] obtain h' where
    r: "siftdown_loop (\<lambda>a b. k a < k b) ?h 0 item ?n = Inr h'" by blast
  have e: "heappush (\<lambda>a b. k a < k b) heap item = Inr h'"
    using r by (simp add: heappush_def siftdown_def getitem_def)
  have "mset h' = mset (?h[?n := item])" using siftdown_loop_mset[OF n r] .
  then have m: "mset h' = add_mset item (mset heap)" by simp
  have "heap_ok k h'" if ok: "heap_ok k heap"
  proof -
    have "hole_ok k ?h ?n item" unfolding hole_ok_def
    proof (intro conjI allI impI)
      show "?n < length ?h" by simp
    next
      fix i assume a: "0 < i \<and> i < length ?h \<and> i \<noteq> ?n \<and> (i - 1) div 2 \<noteq> ?n"
      then have i: "i < ?n" by simp
      then have "(i - 1) div 2 < ?n" by arith
      then show "k (?h ! ((i - 1) div 2)) \<le> k (?h ! i)"
        using ok a i by (simp add: heap_ok_def nth_append)
    next
      fix c assume a: "0 < c \<and> c < length ?h \<and> (c - 1) div 2 = ?n"
      then have False by (simp, arith)
      then show "k item \<le> k (?h ! c)" ..
    next
      fix c assume a: "0 < c \<and> c < length ?h \<and> (c - 1) div 2 = ?n"
      then have False by (simp, arith)
      then show "k (?h ! ((?n - 1) div 2)) \<le> k (?h ! c)" ..
    qed
    from siftdown_loop_heap[OF this r] show ?thesis .
  qed
  then show ?thesis using e m by blast
qed

lemma heappushpop_keep:
  "heap = [] \<or> \<not> lt (heap ! 0) item \<Longrightarrow> heappushpop lt heap item = Inr (heap, item)"
  by (auto simp: heappushpop_def getitem_def)

lemma heappushpop_swap:
  fixes k :: "'a \<Rightarrow> 'b::linorder"
  assumes ne: "heap \<noteq> []" and lt: "k (heap ! 0) < k item"
  shows "\<exists>h'. heappushpop (\<lambda>a b. k a < k b) heap item = Inr (h', heap ! 0) \<and>
          mset h' = mset (heap[0 := item]) \<and> (heap_ok k heap \<longrightarrow> heap_ok k h')"
proof -
  let ?lt = "\<lambda>a b. k a < k b"
  let ?h1 = "heap[0 := item]"
  have l1: "0 < length ?h1" using ne by simp
  from siftup_loop_spec[OF l1, of k item] obtain h2 p where
    u: "siftup_loop ?lt ?h1 (length ?h1) 0 = Inr (h2, p)" "length h2 = length ?h1"
       "p < length ?h1" "length ?h1 \<le> 2 * p + 1" "mset (h2[p := item]) = mset (?h1[0 := item])"
       "up_ok k ?h1 0 \<longrightarrow> up_ok k h2 p"
    by blast
  let ?h3 = "h2[p := item]"
  have p3: "p < length ?h3" using u by simp
  from siftdown_loop_total[OF p3, of ?lt 0 item] obtain h' where
    r: "siftdown_loop ?lt ?h3 0 item p = Inr h'" by blast
  have su: "siftup ?lt ?h1 0 = Inr h'"
    using u r ne by (simp add: siftup_def siftdown_def getitem_def setitem_def)
  have e: "heappushpop ?lt heap item = Inr (h', heap ! 0)"
    using su ne lt by (simp add: heappushpop_def getitem_def setitem_def)
  have "mset h' = mset (?h3[p := item])" using siftdown_loop_mset[OF p3 r] .
  then have m: "mset h' = mset ?h1" using u(5) by simp
  have "heap_ok k h'" if ok: "heap_ok k heap"
  proof -
    have "up_ok k ?h1 0" unfolding up_ok_def
    proof (intro conjI allI impI)
      fix i assume a: "0 < i \<and> i < length ?h1 \<and> (i - 1) div 2 \<noteq> 0"
      then show "k (?h1 ! ((i - 1) div 2)) \<le> k (?h1 ! i)" using ok by (simp add: heap_ok_def)
    next
      fix c assume "0 < c \<and> c < length ?h1 \<and> (c - 1) div 2 = 0 \<and> (0::nat) < 0"
      then show "k (?h1 ! ((0 - 1) div 2)) \<le> k (?h1 ! c)" by simp
    qed
    then have up: "up_ok k h2 p" using u(6) by simp
    have "hole_ok k ?h3 p item" unfolding hole_ok_def
    proof (intro conjI allI impI)
      show "p < length ?h3" by (rule p3)
    next
      fix i assume a: "0 < i \<and> i < length ?h3 \<and> i \<noteq> p \<and> (i - 1) div 2 \<noteq> p"
      then show "k (?h3 ! ((i - 1) div 2)) \<le> k (?h3 ! i)" using up by (simp add: up_ok_def)
    next
      fix c assume a: "0 < c \<and> c < length ?h3 \<and> (c - 1) div 2 = p"
      then have False using u(2,4) by (simp, arith)
      then show "k item \<le> k (?h3 ! c)" ..
    next
      fix c assume a: "0 < c \<and> c < length ?h3 \<and> (c - 1) div 2 = p"
      then have False using u(2,4) by (simp, arith)
      then show "k (?h3 ! ((p - 1) div 2)) \<le> k (?h3 ! c)" ..
    qed
    from siftdown_loop_heap[OF this r] show ?thesis .
  qed
  then show ?thesis using e m by blast
qed

lemma heap_ok_root:
  fixes k :: "'a \<Rightarrow> 'b::linorder"
  assumes "heap_ok k h" "i < length h"
  shows "k (h ! 0) \<le> k (h ! i)"
  using assms(2)
proof (induction i rule: less_induct)
  case (less i)
  show ?case
  proof (cases "i = 0")
    case True then show ?thesis by simp
  next
    case False
    then have p: "(i - 1) div 2 < i" by arith
    have "k (h ! 0) \<le> k (h ! ((i - 1) div 2))" using less.IH[OF p] p less.prems by simp
    moreover have "k (h ! ((i - 1) div 2)) \<le> k (h ! i)" using assms(1) False less.prems by (simp add: heap_ok_def)
    ultimately show ?thesis by simp
  qed
qed

section \<open>Node.add_device\<close>

lemma Device_lt_eq: "Device_lt ds = (\<lambda>a b. prio_of ds a < prio_of ds b)"
  by (simp add: Device_lt_def prio_of_def fun_eq_iff)

lemma add_device_push:
  assumes "int (length (devices n)) < resources n"
  shows "\<exists>h'. add_device ds n d = Inr (n\<lparr>devices := h'\<rparr>, None) \<and>
           mset h' = add_mset d (mset (devices n)) \<and>
           (heap_ok (prio_of ds) (devices n) \<longrightarrow> heap_ok (prio_of ds) h')"
proof -
  from heappush_spec[of "prio_of ds" "devices n" d] obtain h' where
    h: "heappush (Device_lt ds) (devices n) d = Inr h'" "mset h' = add_mset d (mset (devices n))"
       "heap_ok (prio_of ds) (devices n) \<longrightarrow> heap_ok (prio_of ds) h'"
    unfolding Device_lt_eq by blast
  have "add_device ds n d = Inr (n\<lparr>devices := h'\<rparr>, None)"
    using h(1) assms by (simp add: add_device_def)
  then show ?thesis using h(2,3) by blast
qed

lemma add_device_keep:
  assumes "\<not> int (length (devices n)) < resources n"
    and "devices n = [] \<or> \<not> prio_of ds (devices n ! 0) < prio_of ds d"
  shows "add_device ds n d = Inr (n, Some d)"
  using assms heappushpop_keep[of "devices n" "Device_lt ds" d]
  by (auto simp: add_device_def Device_lt_eq)

lemma add_device_swap:
  assumes "\<not> int (length (devices n)) < resources n"
    and "devices n \<noteq> []" "prio_of ds (devices n ! 0) < prio_of ds d"
  shows "\<exists>h'. add_device ds n d = Inr (n\<lparr>devices := h'\<rparr>, Some (devices n ! 0)) \<and>
           mset h' = mset ((devices n)[0 := d]) \<and>
           (heap_ok (prio_of ds) (devices n) \<longrightarrow> heap_ok (prio_of ds) h')"
proof -
  from heappushpop_swap[OF assms(2), of "prio_of ds" d, OF assms(3)] obtain h' where
    h: "heappushpop (Device_lt ds) (devices n) d = Inr (h', devices n ! 0)"
       "mset h' = mset ((devices n)[0 := d])"
       "heap_ok (prio_of ds) (devices n) \<longrightarrow> heap_ok (prio_of ds) h'"
    unfolding Device_lt_eq by blast
  have "add_device ds n d = Inr (n\<lparr>devices := h'\<rparr>, Some (devices n ! 0))"
    using h(1) assms by (simp add: add_device_def)
  then show ?thesis using h(2,3) by blast
qed

lemma add_device_cases:
  obtains (push) h' where "int (length (devices n)) < resources n"
      "add_device ds n d = Inr (n\<lparr>devices := h'\<rparr>, None)"
      "mset h' = add_mset d (mset (devices n))"
      "heap_ok (prio_of ds) (devices n) \<longrightarrow> heap_ok (prio_of ds) h'"
  | (keep) "\<not> int (length (devices n)) < resources n"
      "devices n = [] \<or> \<not> prio_of ds (devices n ! 0) < prio_of ds d"
      "add_device ds n d = Inr (n, Some d)"
  | (swap) h' where "\<not> int (length (devices n)) < resources n"
      "devices n \<noteq> []" "prio_of ds (devices n ! 0) < prio_of ds d"
      "add_device ds n d = Inr (n\<lparr>devices := h'\<rparr>, Some (devices n ! 0))"
      "mset h' = mset ((devices n)[0 := d])"
      "heap_ok (prio_of ds) (devices n) \<longrightarrow> heap_ok (prio_of ds) h'"
proof (cases "int (length (devices n)) < resources n")
  case True
  then show ?thesis using add_device_push[OF True, of ds d] push by blast
next
  case False
  show ?thesis
  proof (cases "devices n = [] \<or> \<not> prio_of ds (devices n ! 0) < prio_of ds d")
    case True
    then show ?thesis using add_device_keep[OF False True] keep False by blast
  next
    case F: False
    then have a: "devices n \<noteq> []" "prio_of ds (devices n ! 0) < prio_of ds d" by auto
    show ?thesis using add_device_swap[OF False a] swap False a by blast
  qed
qed

lemma mset_update0: "h \<noteq> [] \<Longrightarrow> mset (h[0 := d]) = add_mset d (mset h - {#h ! 0#})"
  by (cases h) auto

text \<open>
  Claim C1. For every node and every sequence of \<^verbatim>\<open>add_device\<close> calls on it, the number of
  devices of the node never exceeds its capacity: a node within its capacity (a new node
  of capacity at least 0 is) stays within it after any sequence of calls, none of which
  raises. Every prefix of a sequence is a sequence, so this covers every moment between
  the calls.
\<close>

theorem add_device_capacity:
  "int (length (devices n)) \<le> resources n \<Longrightarrow>
     \<exists>n'. add_devices ds n xs = Inr n' \<and> int (length (devices n')) \<le> resources n' \<and>
          resources n' = resources n"
proof (induction xs arbitrary: n)
  case Nil
  then show ?case by simp
next
  case (Cons d xs)
  show ?case
  proof (cases rule: add_device_cases[of n ds d])
    case (push h')
    have "length h' = Suc (length (devices n))" using push(3) by (metis size_mset size_add_mset)
    then have "int (length (devices (n\<lparr>devices := h'\<rparr>))) \<le> resources (n\<lparr>devices := h'\<rparr>)"
      using push(1) by simp
    from Cons.IH[OF this] show ?thesis using push(2) by simp
  next
    case keep
    from Cons.IH[OF Cons.prems] show ?thesis using keep(3) by simp
  next
    case (swap h')
    have "length h' = length (devices n)" using swap(5) by (metis size_mset length_list_update)
    then have "int (length (devices (n\<lparr>devices := h'\<rparr>))) \<le> resources (n\<lparr>devices := h'\<rparr>)"
      using Cons.prems by simp
    from Cons.IH[OF this] show ?thesis using swap(4) by simp
  qed
qed

theorem add_device_capacity_witness:
  "\<exists>n'. add_devices ds0 (Node_init 1) [5, 7, 2] = Inr n' \<and> int (length (devices n')) \<le> 1"
proof -
  have "int (length (devices (Node_init 1))) \<le> resources (Node_init 1)"
    by (simp add: Node_init_def)
  from add_device_capacity[OF this, of ds0 "[5, 7, 2]"] show ?thesis
    by (auto simp add: Node_init_def simp del: add_devices.simps)
qed

text \<open>
  Claim C8. \<^verbatim>\<open>add_device\<close> returns \<^verbatim>\<open>None\<close> if and only if the occupancy at the time of the
  call is strictly below the capacity; in that case the device has been added and no
  device has left (the collection is the old one plus the device).
\<close>

theorem add_device_None_iff:
  "\<exists>n' r. add_device ds n d = Inr (n', r) \<and>
      (r = None \<longleftrightarrow> int (length (devices n)) < resources n) \<and>
      (r = None \<longrightarrow> mset (devices n') = add_mset d (mset (devices n)) \<and>
                    resources n' = resources n \<and> neighbors n' = neighbors n)"
  by (cases rule: add_device_cases[of n ds d]) auto

theorem add_device_None_iff_witness:
  "\<exists>n'. add_device ds0 (Node_init 1) 5 = Inr (n', None) \<and> mset (devices n') = {#5#}"
  using add_device_None_iff[of ds0 "Node_init 1" 5] by (auto simp add: Node_init_def)

text \<open>
  Claim C10. \<^verbatim>\<open>add_device\<close> never raises, for every node and device; on a node of capacity
  0 with an empty collection it returns the device passed in and leaves the node as it
  was.
\<close>

theorem add_device_total:
  "(\<exists>n' r. add_device ds n d = Inr (n', r)) \<and>
   (resources n = 0 \<and> devices n = [] \<longrightarrow> add_device ds n d = Inr (n, Some d))"
proof
  show "\<exists>n' r. add_device ds n d = Inr (n', r)"
    by (cases rule: add_device_cases[of n ds d]) auto
  show "resources n = 0 \<and> devices n = [] \<longrightarrow> add_device ds n d = Inr (n, Some d)"
    using add_device_keep[of n ds d] by simp
qed

theorem add_device_total_witness:
  "add_device ds0 (Node_init 0) 5 = Inr (Node_init 0, Some 5) \<and> devices (Node_init 0) = []"
  using add_device_total[of ds0 "Node_init 0" 5] by (simp add: Node_init_def)

text \<open>
  Claim C7. If \<^verbatim>\<open>add_device\<close> returns the device that was passed in, the collection of
  the node is unchanged.
\<close>

theorem add_device_reject_unchanged:
  "add_device ds n d = Inr (n', Some d) \<Longrightarrow> devices n' = devices n"
  by (cases rule: add_device_cases[of n ds d]) auto

theorem add_device_reject_unchanged_witness:
  "add_device ds0 \<lparr>resources = 1, devices = [7], neighbors = {}\<rparr> 5
     = Inr (\<lparr>resources = 1, devices = [7], neighbors = {}\<rparr>, Some 5) \<and>
   devices \<lparr>resources = 1, devices = [7], neighbors = {}\<rparr> = [7]"
proof -
  have e: "add_device ds0 \<lparr>resources = 1, devices = [7], neighbors = {}\<rparr> 5
     = Inr (\<lparr>resources = 1, devices = [7], neighbors = {}\<rparr>, Some 5)"
    by (simp add: add_device_def heappushpop_def getitem_def Device_lt_def ds0_def Device_init_def)
  show ?thesis using e add_device_reject_unchanged[OF e] by simp
qed

lemma heap_ok_Min:
  fixes k :: "'a \<Rightarrow> 'b::linorder"
  assumes "heap_ok k h" "h \<noteq> []"
  shows "Min (k ` set h) = k (h ! 0)"
proof (rule Min_eqI)
  show "finite (k ` set h)" by simp
  show "\<And>y. y \<in> k ` set h \<Longrightarrow> k (h ! 0) \<le> y"
    using heap_ok_root[OF assms(1)] by (auto simp: in_set_conv_nth)
  show "k (h ! 0) \<in> k ` set h" using assms(2) by (cases h) auto
qed

lemma full_node_eviction:
  assumes full: "\<not> int (length (devices n)) < resources n"
    and heap: "heap_ok (prio_of ds) (devices n)"
    and dist: "distinct (devices n)"
  shows "\<exists>n' r. add_device ds n D = Inr (n', Some r) \<and>
     (r \<noteq> D \<longleftrightarrow> devices n \<noteq> [] \<and> Min (prio_of ds ` set (devices n)) < prio_of ds D) \<and>
     (r \<noteq> D \<longrightarrow> r \<in> set (devices n) \<and> prio_of ds r = Min (prio_of ds ` set (devices n)) \<and>
                  D \<in> set (devices n') \<and> r \<notin> set (devices n')) \<and>
     (r = D \<longrightarrow> devices n' = devices n)"
proof (cases rule: add_device_cases[of n ds D])
  case (push h')
  then show ?thesis using full by simp
next
  case keep
  have "\<not> (devices n \<noteq> [] \<and> Min (prio_of ds ` set (devices n)) < prio_of ds D)"
    using keep(2) heap_ok_Min[OF heap] by auto
  then show ?thesis using keep(3) by auto
next
  case (swap h')
  let ?r = "devices n ! 0"
  have m: "Min (prio_of ds ` set (devices n)) = prio_of ds ?r" using heap_ok_Min[OF heap swap(2)] .
  have ne: "?r \<noteq> D" using swap(3) by auto
  have rin: "?r \<in> set (devices n)" using swap(2) by (cases "devices n") auto
  have ms: "mset h' = add_mset D (mset (devices n) - {#?r#})"
    using swap(5) swap(2) by (cases "devices n") auto
  have "D \<in># mset h'" using ms by simp
  then have din: "D \<in> set h'" by simp
  have "?r \<notin># mset (devices n) - {#?r#}"
    using dist swap(2) by (cases "devices n") auto
  then have "?r \<notin># mset h'" using ms ne by simp
  then have rout: "?r \<notin> set h'" by simp
  show ?thesis using swap(4) swap(2,3) m ne rin din rout by auto
qed

section \<open>get_resources\<close>

text \<open>
  Claim C9, as amended. For positive \<open>N\<close> and \<open>U\<close>, \<^verbatim>\<open>get_resources(N, U)\<close> raises
  ValueError if and only if \<open>U < N\<close>. When \<open>N \<le> U\<close> it returns a list, whatever the random
  draws, as long as \<open>U \<le> 2^63\<close>; for a larger \<open>U\<close> the population \<^verbatim>\<open>range(1, U)\<close> is longer
  than \<^verbatim>\<open>sys.maxsize\<close> and \<^verbatim>\<open>random.sample\<close> raises OverflowError.
\<close>

theorem get_resources_raises_iff:
  assumes "0 < N" "0 < U"
  shows "(get_resources rs N U = Inl ValueError \<longleftrightarrow> U < N) \<and>
         (N \<le> U \<and> U \<le> 2 ^ 63 \<longrightarrow> (\<exists>r. get_resources rs N U = Inr r)) \<and>
         (N \<le> U \<and> 2 ^ 63 < U \<longrightarrow> get_resources rs N U = Inl OverflowError)"
proof -
  have v: "get_resources rs N U = Inl ValueError" if "U < N"
    using that by (simp add: get_resources_def)
  have o: "get_resources rs N U = Inl OverflowError" if "N \<le> U" "2 ^ 63 < U"
    using that by (simp add: get_resources_def constrained_sum_sample_pos_def random_sample_def
        range_len_def sys_maxsize_def Let_def)
  have r: "\<exists>r. get_resources rs N U = Inr r" if "N \<le> U" "U \<le> 2 ^ 63"
    using that assms by (simp add: get_resources_def constrained_sum_sample_pos_def random_sample_def
        range_len_def sys_maxsize_def Let_def)
  have "get_resources rs N U \<noteq> Inl ValueError" if "N \<le> U"
  proof (cases "U \<le> 2 ^ 63")
    case True
    then show ?thesis using r[OF that] by auto
  next
    case False
    then show ?thesis using o[OF that] by simp
  qed
  then show ?thesis using v o r by (cases "U < N") auto
qed

theorem get_resources_raises_iff_witness:
  "get_resources [] 3 2 = Inl ValueError \<and> (\<exists>r. get_resources [] 2 3 = Inr r) \<and>
   (\<exists>r. get_resources [] 1 (2 ^ 63) = Inr r) \<and>
   get_resources [] 2 (2 ^ 63 + 1) = Inl OverflowError"
  using get_resources_raises_iff[of 3 2 "[]"] get_resources_raises_iff[of 2 3 "[]"]
    get_resources_raises_iff[of 1 "2 ^ 63" "[]"] get_resources_raises_iff[of 2 "2 ^ 63 + 1" "[]"]
  by simp

text \<open>
  Claim C9 as stated fails for a large \<open>U\<close>: with \<open>N = 1\<close> and \<open>U = 2^63 + 1\<close>, so that
  \<open>U \<ge> N\<close>, the call does not return: \<^verbatim>\<open>len(range(1, U))\<close> raises OverflowError.
\<close>

theorem get_resources_overflow_counterexample:
  "get_resources [] 1 (2 ^ 63 + 1) = Inl OverflowError"
  by (simp add: get_resources_def constrained_sum_sample_pos_def random_sample_def
      range_len_def sys_maxsize_def Let_def)

section \<open>One iteration of find_node\<close>

lemma add_device_prio_cong:
  assumes "\<And>d. priority (ds d) = priority (ds' d)"
  shows "add_device ds = add_device ds'"
proof -
  have e: "Device_lt ds = Device_lt ds'" by (intro ext) (simp add: Device_lt_def assms)
  show ?thesis by (intro ext) (simp only: add_device_def e)
qed

lemma add_device_set_probe [simp]:
  "add_device (devs (set_probe w device p)) = add_device (devs w)"
  by (rule add_device_prio_cong) (simp add: set_probe_def)

lemma nodes_set_probe: "nodes (set_probe w device p) = nodes w"
  by (simp add: set_probe_def)

lemma rand_from_set_in:
  assumes "finite f" "f \<noteq> {}"
  shows "\<exists>n \<in> f. rand_from_set r f = Inr n"
proof -
  have c: "0 < card f" using assms by (simp add: card_gt_0_iff)
  have "length (sorted_list_of_set f) = card f" by simp
  then have "r mod card f < length (sorted_list_of_set f)" using c by simp
  then have "sorted_list_of_set f ! (r mod card f) \<in> set (sorted_list_of_set f)" by (rule nth_mem)
  then have "sorted_list_of_set f ! (r mod card f) \<in> f" using assms(1) by simp
  then show ?thesis using assms(2) by (simp add: rand_from_set_def)
qed

lemma rand_from_set_Inr: "rand_from_set r f = Inr n \<Longrightarrow> f \<noteq> {}"
  by (auto simp: rand_from_set_def split: if_splits)

lemma map_of_frontier_add:
  "map_of (frontier_add fr k N) = (map_of fr)(k \<mapsto> (case map_of fr k of None \<Rightarrow> {} | Some s \<Rightarrow> s) \<union> N)"
  by (auto simp: frontier_add_def dict_setdefault_def update_conv' fun_eq_iff map_add_def split: option.splits)

lemma keys_frontier_add:
  "map fst (frontier_add fr k N) = (if k \<in> fst ` set fr then map fst fr else map fst fr @ [k])"
  by (auto simp: frontier_add_def dict_setdefault_def update_keys map_of_eq_None_iff image_iff
           split: option.splits dest: map_of_SomeD)

lemma find_node_iter_elim:
  assumes "find_node_iter r w device = Inr (ctl, w')"
  obtains
    (exit) "ctl = LoopExit" "w' = w" "frontier (probe (devs w device)) \<noteq> []"
       "\<not> distance (probe (devs w device)) \<le> fst (last (frontier (probe (devs w device))))"
  | (incr) S where "ctl = Continue"
       "w' = set_probe w device ((probe (devs w device))\<lparr>distance := Suc (distance (probe (devs w device)))\<rparr>)"
       "frontier (probe (devs w device)) \<noteq> []"
       "distance (probe (devs w device)) \<le> fst (last (frontier (probe (devs w device))))"
       "map_of (frontier (probe (devs w device))) (distance (probe (devs w device))) = Some S"
       "S \<subseteq> visited (probe (devs w device))"
  | (visit) S n node' d where
       "frontier (probe (devs w device)) \<noteq> []"
       "distance (probe (devs w device)) \<le> fst (last (frontier (probe (devs w device))))"
       "map_of (frontier (probe (devs w device))) (distance (probe (devs w device))) = Some S"
       "rand_from_set r (S - visited (probe (devs w device))) = Inr n"
       "add_device (devs w) (nodes w n) device = Inr (node', d)"
       "w' = (set_probe w device ((probe (devs w device))
                \<lparr>visited := insert n (visited (probe (devs w device))),
                 frontier := frontier_add (frontier (probe (devs w device)))
                               (Suc (distance (probe (devs w device)))) (nbrs w n)\<rparr>))
             \<lparr>nodes := (nodes w)(n := node')\<rparr>"
       "ctl = (case d of None \<Rightarrow> Break | Some d' \<Rightarrow> if d' \<noteq> device then Call d' else Continue)"
proof -
  let ?p = "probe (devs w device)"
  have ne: "frontier ?p \<noteq> []" using assms
    by (auto simp: find_node_iter_def dict_last_key_def Let_def split: if_splits)
  show ?thesis
  proof (cases "distance ?p \<le> fst (last (frontier ?p))")
    case False
    then have "ctl = LoopExit" "w' = w" using assms ne
      by (auto simp: find_node_iter_def dict_last_key_def Let_def)
    then show ?thesis using exit ne False by blast
  next
    case True
    then obtain S where S: "map_of (frontier ?p) (distance ?p) = Some S" using assms ne
      by (auto simp: find_node_iter_def dict_last_key_def dict_getitem_def Let_def split: option.splits)
    show ?thesis
    proof (cases "S - visited ?p = {}")
      case e: True
      then have "ctl = Continue" "w' = set_probe w device (?p\<lparr>distance := Suc (distance ?p)\<rparr>)"
        using assms ne True S
        by (auto simp: find_node_iter_def dict_last_key_def dict_getitem_def Let_def)
      then show ?thesis using incr ne True S e by blast
    next
      case f: False
      then obtain n where n: "rand_from_set r (S - visited ?p) = Inr n" using assms ne True S
        by (auto simp: find_node_iter_def dict_last_key_def dict_getitem_def Let_def split: sum.splits)
      let ?k = "Suc (distance ?p)"
      let ?fr = "dict_setdefault (frontier ?p) ?k {}"
      have g: "dict_getitem ?fr ?k = Inr (case map_of (frontier ?p) ?k of None \<Rightarrow> {} | Some s \<Rightarrow> s)"
        by (auto simp: dict_getitem_def dict_setdefault_def map_add_def split: option.splits)
      let ?W = "\<lambda>node'. (set_probe w device (?p\<lparr>visited := insert n (visited ?p),
                   frontier := frontier_add (frontier ?p) ?k (nbrs w n)\<rparr>))\<lparr>nodes := (nodes w)(n := node')\<rparr>"
      have g1: "dict_getitem (frontier ?p) (distance ?p) = Inr S" using S by (simp add: dict_getitem_def)
      have eq: "find_node_iter r w device =
          (case add_device (devs w) (nodes w n) device of
             Inl e \<Rightarrow> Inl e
           | Inr (node', d) \<Rightarrow>
               (case d of None \<Rightarrow> Inr (Break, ?W node')
                | Some d' \<Rightarrow> if d' \<noteq> device then Inr (Call d', ?W node') else Inr (Continue, ?W node')))"
        using ne True f
        by (cases "add_device (devs w) (nodes w n) device")
           (auto simp add: find_node_iter_def dict_last_key_def Let_def g1 n g frontier_add_def nbrs_def
              nodes_set_probe split: option.splits)
      obtain node' d where a: "add_device (devs w) (nodes w n) device = Inr (node', d)"
        using assms unfolding eq by (cases "add_device (devs w) (nodes w n) device") auto
      have "w' = ?W node'"
        and "ctl = (case d of None \<Rightarrow> Break | Some d' \<Rightarrow> if d' \<noteq> device then Call d' else Continue)"
        using assms unfolding eq a by (auto split: option.splits if_splits)
      then show ?thesis using visit ne True S n a by blast
    qed
  qed
qed

section \<open>The assignment phase\<close>

lemma add_device_members:
  assumes a: "add_device ds nd dev = Inr (node', d)"
    and dist: "distinct (devices nd)" and fresh: "dev \<notin> set (devices nd)"
  shows "distinct (devices node')"
    and "set (devices node') \<subseteq> insert dev (set (devices nd))"
    and "\<And>d'. d = Some d' \<Longrightarrow> d' \<noteq> dev \<Longrightarrow> d' \<in> set (devices nd) \<and> d' \<notin> set (devices node')"
proof -
  have "distinct (devices node') \<and> set (devices node') \<subseteq> insert dev (set (devices nd)) \<and>
        (\<forall>d'. d = Some d' \<longrightarrow> d' \<noteq> dev \<longrightarrow> d' \<in> set (devices nd) \<and> d' \<notin> set (devices node'))"
  proof (cases rule: add_device_cases[of nd ds dev])
    case (push h')
    have m: "mset h' = mset (dev # devices nd)" using push(3) by simp
    have "distinct h' = distinct (dev # devices nd)" by (rule mset_eq_imp_distinct_iff[OF m])
    then have d1: "distinct h'" using dist fresh by simp
    have "set h' = set (dev # devices nd)" by (rule mset_eq_setD[OF m])
    then have s1: "set h' = insert dev (set (devices nd))" by simp
    have n': "node' = nd\<lparr>devices := h'\<rparr>" "d = None" using a push(2) by simp_all
    show ?thesis unfolding n' using d1 s1 by auto
  next
    case keep
    then have n': "node' = nd" "d = Some dev" using a by simp_all
    show ?thesis unfolding n' using dist by auto
  next
    case (swap h')
    obtain x xs where xs: "devices nd = x # xs" using swap(2) by (cases "devices nd") auto
    have m: "mset h' = mset (dev # xs)" using swap(5) xs by simp
    have "distinct h' = distinct (dev # xs)" by (rule mset_eq_imp_distinct_iff[OF m])
    then have d1: "distinct h'" using dist fresh xs by simp
    have "set h' = set (dev # xs)" by (rule mset_eq_setD[OF m])
    then have s1: "set h' = insert dev (set xs)" by simp
    have x1: "x \<notin> set h'" using s1 dist fresh xs by auto
    have n': "node' = nd\<lparr>devices := h'\<rparr>" "d = Some x" using a swap(4) xs by simp_all
    show ?thesis unfolding n' using d1 s1 x1 xs by auto
  qed
  then show "distinct (devices node')"
    and "set (devices node') \<subseteq> insert dev (set (devices nd))"
    and "\<And>d'. d = Some d' \<Longrightarrow> d' \<noteq> dev \<Longrightarrow> d' \<in> set (devices nd) \<and> d' \<notin> set (devices node')"
    by blast+
qed

lemma add_device_same_unchanged:
  "add_device ds n d = Inr (n', Some d) \<Longrightarrow> devices n' = devices n"
  by (cases rule: add_device_cases[of n ds d]) auto

lemma no_dup_nodes: "nodes w1 = nodes w2 \<Longrightarrow> no_dup w1 = no_dup w2"
  by (simp add: no_dup_def)

lemma nodes_find_node_enter [simp]: "nodes (find_node_enter w d) = nodes w"
  by (simp add: find_node_enter_def set_probe_def)

lemma step_phase_inv:
  assumes inv: "phase_inv ((w, device # callers), pend)"
    and st: "step r (w, device # callers) = Inr c'"
  shows "phase_inv (c', pend)"
proof -
  from st obtain ctl w1 where it: "find_node_iter r w device = Inr (ctl, w1)"
    by (auto simp: step_def split: sum.splits)
  have nd: "no_dup w" and dp: "distinct pend"
    and hp: "\<And>n. set (devices (nodes w n)) \<inter> set pend = {}"
    and dn: "device \<notin> set pend" "\<And>n. device \<notin> set (devices (nodes w n))"
    using inv by (auto simp: phase_inv_def)
  from it show ?thesis
  proof (cases rule: find_node_iter_elim)
    case exit
    then have "c' = (w, [])" using st it by (simp add: step_def)
    then show ?thesis using nd dp hp by (simp add: phase_inv_def)
  next
    case (incr S)
    then have c: "c' = (w1, device # callers)" using st it by (simp add: step_def)
    have "nodes w1 = nodes w" using incr(2) by (simp add: set_probe_def)
    then show ?thesis using c inv by (simp add: phase_inv_def no_dup_def)
  next
    case (visit S n node' d)
    have nw: "nodes w1 = (nodes w)(n := node')" using visit(6) by (simp add: set_probe_def)
    have di: "distinct (devices (nodes w n))" using nd by (simp add: no_dup_def)
    note m = add_device_members[OF visit(5) di dn(2)]
    have sub: "\<And>k. set (devices (nodes w1 k)) \<subseteq> insert device (\<Union>j. set (devices (nodes w j)))"
      using m(2) nw by auto
    have nd1: "no_dup w1" unfolding no_dup_def
    proof (intro conjI allI impI)
      fix k show "distinct (devices (nodes w1 k))" using nw m(1) nd by (simp add: no_dup_def)
    next
      fix k j :: nat assume kj: "k \<noteq> j"
      have o: "set (devices (nodes w k)) \<inter> set (devices (nodes w j)) = {}"
        using nd kj by (simp add: no_dup_def)
      show "set (devices (nodes w1 k)) \<inter> set (devices (nodes w1 j)) = {}"
      proof (cases "k = n")
        case True
        then have "set (devices (nodes w1 k)) \<subseteq> insert device (set (devices (nodes w n)))"
          and "nodes w1 j = nodes w j" using m(2) nw kj by auto
        then show ?thesis using o dn(2)[of j] True by auto
      next
        case kn: False
        show ?thesis
        proof (cases "j = n")
          case True
          then have "set (devices (nodes w1 j)) \<subseteq> insert device (set (devices (nodes w n)))"
            and "nodes w1 k = nodes w k" using m(2) nw kn by auto
          then show ?thesis using o dn(2)[of k] True by auto
        next
          case False
          then show ?thesis using o nw kn by simp
        qed
      qed
    qed
    have hp1: "\<And>k. set (devices (nodes w1 k)) \<inter> set pend = {}"
    proof -
      fix k
      show "set (devices (nodes w1 k)) \<inter> set pend = {}"
      proof (cases "k = n")
        case True
        then have "set (devices (nodes w1 k)) \<subseteq> insert device (set (devices (nodes w n)))"
          using m(2) nw by auto
        then show ?thesis using hp[of n] dn(1) by auto
      next
        case False
        then show ?thesis using hp[of k] nw by simp
      qed
    qed
    show ?thesis
    proof (cases d)
      case None
      then have "c' = (w1, [])" using st it visit(7) by (simp add: step_def)
      then show ?thesis using nd1 dp hp1 by (simp add: phase_inv_def)
    next
      case (Some d')
      show ?thesis
      proof (cases "d' = device")
        case True
        then have c: "c' = (w1, device # callers)" using st it visit(7) Some by (simp add: step_def)
        have "\<And>k. device \<notin> set (devices (nodes w1 k))"
        proof -
          fix k
          have "devices node' = devices (nodes w n)"
            using add_device_same_unchanged visit(5) Some True by blast
          then show "device \<notin> set (devices (nodes w1 k))" using nw dn(2) by (cases "k = n") auto
        qed
        then show ?thesis using c nd1 dp hp1 dn(1) by (simp add: phase_inv_def)
      next
        case False
        then have c: "c' = (find_node_enter w1 d', d' # device # callers)"
          using st it visit(7) Some by (simp add: step_def)
        from m(3)[OF Some False] have d'in: "d' \<in> set (devices (nodes w n))"
          and d'out: "d' \<notin> set (devices node')" by auto
        have "d' \<notin> set pend" using d'in hp[of n] by auto
        moreover have "\<And>k. d' \<notin> set (devices (nodes w1 k))"
        proof -
          fix k
          show "d' \<notin> set (devices (nodes w1 k))"
          proof (cases "k = n")
            case True then show ?thesis using d'out nw by simp
          next
            case kn: False
            have "set (devices (nodes w k)) \<inter> set (devices (nodes w n)) = {}"
              using nd kn by (simp add: no_dup_def)
            then show ?thesis using d'in nw kn by auto
          qed
        qed
        ultimately show ?thesis using c nd1 dp hp1
          by (simp add: phase_inv_def no_dup_def)
      qed
    qed
  qed
qed

lemma phase_step_inv:
  assumes "phase_inv pc" "phase_step r pc = Inr pc'"
  shows "phase_inv pc'"
proof -
  obtain w st pend where pc: "pc = ((w, st), pend)" by (metis surj_pair)
  show ?thesis
  proof (cases st)
    case Nil
    show ?thesis
    proof (cases pend)
      case n: Nil
      then have "pc' = pc" using assms(2) pc Nil by (simp add: phase_step_def)
      then show ?thesis using assms(1) by simp
    next
      case (Cons d ds)
      then have "pc' = (assign_device w d, ds)" using assms(2) pc Nil by (simp add: phase_step_def)
      then show ?thesis using assms(1) pc Nil Cons
        by (auto simp: phase_inv_def assign_device_def no_dup_def)
    qed
  next
    case (Cons device callers)
    then obtain c' where c: "step r (w, device # callers) = Inr c'" "pc' = (c', pend)"
      using assms(2) pc by (auto simp: phase_step_def split: sum.splits)
    show ?thesis using step_phase_inv[OF _ c(1), of pend] assms(1) pc Cons c(2) by simp
  qed
qed

lemma phase_run_inv:
  "phase_inv pc \<Longrightarrow> phase_run rs pc = Inr pc' \<Longrightarrow> phase_inv pc'"
proof (induction rs arbitrary: pc)
  case Nil
  then show ?case by simp
next
  case (Cons r rs)
  from Cons.prems(2) obtain pc1 where s: "phase_step r pc = Inr pc1" "phase_run rs pc1 = Inr pc'"
    by (auto split: sum.splits)
  show ?case using Cons.IH[OF phase_step_inv[OF Cons.prems(1) s(1)] s(2)] .
qed

text \<open>
  Claim C6. At every point of the assignment phase (after each iteration of a search,
  hence after each \<^verbatim>\<open>add_device\<close>), every device is in at most one collection, and at
  most once: a placement adds the searching device, which no node holds, to one node,
  and an evicted device has left its node when its own search starts, so the device
  whose search is running is held by no node.
\<close>

theorem assignment_no_duplicates:
  assumes "\<forall>n. devices (nodes w n) = []" and "distinct pending"
    and "phase_run rs ((w, []), pending) = Inr ((w', st), pending')"
  shows "no_dup w' \<and> (\<forall>d callers. st = d # callers \<longrightarrow> (\<forall>n. d \<notin> set (devices (nodes w' n))))"
proof -
  have "phase_inv ((w, []), pending)" using assms(1,2) by (simp add: phase_inv_def no_dup_def)
  from phase_run_inv[OF this assms(3)] show ?thesis by (simp add: phase_inv_def)
qed

lemma ex_run: "(case phase_run [0,0, 0,0,0,0, 0,0,0,0] ((w_ex, []), [9, 5, 7]) of
     Inr ((w', st), pend) \<Rightarrow> (map (\<lambda>n. devices (nodes w' n)) [0,1,2,3], st, pend) | Inl e \<Rightarrow> ([], [], []))
   = ([[9], [7], [], []], [5, 7], [])"
  by code_simp

theorem assignment_no_duplicates_witness:
  "\<exists>w'. phase_run [0,0, 0,0,0,0, 0,0,0,0] ((w_ex, []), [9, 5, 7]) = Inr ((w', [5, 7]), []) \<and>
     no_dup w' \<and> devices (nodes w' 0) = [9] \<and> devices (nodes w' 1) = [7] \<and>
     (\<forall>n. 5 \<notin> set (devices (nodes w' n)))"
proof -
  obtain w' where r: "phase_run [0,0, 0,0,0,0, 0,0,0,0] ((w_ex, []), [9, 5, 7]) = Inr ((w', [5, 7]), [])"
    and d: "devices (nodes w' 0) = [9]" "devices (nodes w' 1) = [7]"
    using ex_run by (auto split: sum.splits prod.splits)
  have a: "\<forall>n. devices (nodes w_ex n) = []" by (simp add: w_ex_def nodes_ex_def)
  have b: "distinct [9, 5, 7 :: nat]" by simp
  from assignment_no_duplicates[OF a b r] show ?thesis using r d by auto
qed

section \<open>The state at the start of find_node\<close>

lemma devs_find_node_enter:
  "devs (find_node_enter w d) d' =
     (if d' = d then (devs w d)\<lparr>probe := (probe (devs w d))\<lparr>distance := 0, visited := {}\<rparr>\<rparr> else devs w d')"
  by (simp add: find_node_enter_def set_probe_def)

lemma step_Call:
  assumes "step r (w, device # callers) = Inr (w', d # device # callers)"
  shows "\<exists>w1. find_node_iter r w device = Inr (Call d, w1) \<and> w' = find_node_enter w1 d"
proof -
  from assms obtain ctl w1 where it: "find_node_iter r w device = Inr (ctl, w1)"
    by (auto simp: step_def split: sum.splits)
  then show ?thesis using assms by (cases ctl) (auto simp: step_def)
qed

lemma find_node_iter_Call_probe:
  assumes "find_node_iter r w device = Inr (Call d, w1)"
  shows "d \<noteq> device \<and> devs w1 d = devs w d"
  using assms
proof (cases rule: find_node_iter_elim)
  case (visit S n node' d0)
  then have "d \<noteq> device" by (auto split: option.splits if_splits)
  then show ?thesis using visit(6) by (simp add: set_probe_def)
qed simp_all

text \<open>
  Claim C4, as amended. At the start of every call of \<^verbatim>\<open>find_node\<close> (started by
  \<^verbatim>\<open>assign_device\<close>, or restarted for an evicted device by the step that evicts it) the
  distance is 0 and the visited set is empty; the frontier is not re-initialized: it is
  the frontier that the probe held before the call, which is \<open>{0: {origin}}\<close> on a probe
  that has not searched yet.
\<close>

theorem find_node_start_state:
  "(snd (assign_device w device) = [device] \<and>
    distance (probe (devs (fst (assign_device w device)) device)) = 0 \<and>
    visited (probe (devs (fst (assign_device w device)) device)) = {} \<and>
    frontier (probe (devs (fst (assign_device w device)) device)) = frontier (probe (devs w device))) \<and>
   (step r (w, device # callers) = Inr (w', d # device # callers) \<longrightarrow>
      distance (probe (devs w' d)) = 0 \<and> visited (probe (devs w' d)) = {} \<and>
      frontier (probe (devs w' d)) = frontier (probe (devs w d))) \<and>
   (probe (devs w device) = Probe_init orig \<longrightarrow>
      frontier (probe (devs (fst (assign_device w device)) device)) = [(0, {orig})])"
proof (intro conjI impI)
  assume "step r (w, device # callers) = Inr (w', d # device # callers)"
  from step_Call[OF this] obtain w1 where
    w1: "find_node_iter r w device = Inr (Call d, w1)" "w' = find_node_enter w1 d" by blast
  from find_node_iter_Call_probe[OF w1(1)] have e: "devs w1 d = devs w d" by simp
  show "distance (probe (devs w' d)) = 0" "visited (probe (devs w' d)) = {}"
    "frontier (probe (devs w' d)) = frontier (probe (devs w d))"
    using w1(2) e by (simp_all add: devs_find_node_enter)
qed (simp_all add: assign_device_def devs_find_node_enter Probe_init_def)

lemma ex_restart:
  "stack_after [0,0, 0,0,0,0, 0,0,0] ((w_ex, []), [9, 5, 7]) = [7] \<and>
   (case step 0 (world_after [0,0, 0,0,0,0, 0,0,0] ((w_ex, []), [9, 5, 7]), [7]) of
      Inr (w', st) \<Rightarrow> st | Inl e \<Rightarrow> []) = [5, 7] \<and>
   frontier (probe (devs (world_after [0,0, 0,0,0,0, 0,0,0] ((w_ex, []), [9, 5, 7])) 5))
     = [(0, {0}), (1, {1, 2}), (2, {0, 3})]"
  by code_simp

theorem find_node_start_state_witness:
  "\<exists>w'. step 0 (world_after [0,0, 0,0,0,0, 0,0,0] ((w_ex, []), [9, 5, 7]), [7]) = Inr (w', [5, 7]) \<and>
     distance (probe (devs w' 5)) = 0 \<and> visited (probe (devs w' 5)) = {} \<and>
     frontier (probe (devs w' 5)) = [(0, {0}), (1, {1, 2}), (2, {0, 3})] \<and>
     frontier (probe (devs (fst (assign_device w_ex 5)) 5)) = [(0, {0})]"
proof -
  let ?w = "world_after [0,0, 0,0,0,0, 0,0,0] ((w_ex, []), [9, 5, 7])"
  obtain w' where s: "step 0 (?w, [7]) = Inr (w', [5, 7])"
    using ex_restart by (auto split: sum.splits prod.splits)
  have p: "probe (devs w_ex 5) = Probe_init 0" by (simp add: w_ex_def ds0_def Device_init_def)
  show ?thesis
    using find_node_start_state[of ?w 7 0 "[]" w' 5 0] find_node_start_state[of w_ex 5 0 "[]" w' 5 0]
      s p ex_restart by auto
qed

text \<open>
  Claim C4 as stated fails: in the example, device 5 is placed on node 1 and then evicted
  by device 7; when its restarted \<^verbatim>\<open>find_node\<close> starts (5 on top of the stack), its
  frontier still holds the entries of its first search.
\<close>

theorem restart_frontier_counterexample:
  "stack_after [0,0, 0,0,0,0, 0,0,0] ((w_ex, []), [9, 5, 7]) = [7] \<and>
   stack_after [0,0, 0,0,0,0, 0,0,0,0] ((w_ex, []), [9, 5, 7]) = [5, 7] \<and>
   connected_node (devs (world_after [0,0, 0,0,0,0, 0,0,0,0] ((w_ex, []), [9, 5, 7])) 5) = 0 \<and>
   frontier (probe (devs (world_after [0,0, 0,0,0,0, 0,0,0,0] ((w_ex, []), [9, 5, 7])) 5))
     = [(0, {0}), (1, {1, 2}), (2, {0, 3})] \<and>
   frontier (probe (devs (world_after [0,0, 0,0,0,0, 0,0,0,0] ((w_ex, []), [9, 5, 7])) 5))
     \<noteq> [(0, {0})]"
  by code_simp

section \<open>What a search visits\<close>

lemma fr_at_frontier_add:
  "frontier q = frontier_add (frontier p) k N \<Longrightarrow>
     fr_at q j = (if j = k then fr_at p k \<union> N else fr_at p j)"
  by (simp add: fr_at_def map_of_frontier_add)

lemma nbrs_set_probe [simp]: "nbrs (set_probe w d p) = nbrs w"
  by (simp add: nbrs_def set_probe_def fun_eq_iff)

lemma devs_set_probe:
  "devs (set_probe w d p) d' = (if d' = d then (devs w d)\<lparr>probe := p\<rparr> else devs w d')"
  by (simp add: set_probe_def)

lemma visit_of_iter:
  assumes it: "find_node_iter r w device = Inr (ctl, w')" and fin: "fin_ok w device"
  shows "nbrs w' = nbrs w \<and> fin_ok w' device \<and>
    (\<forall>d'. d' \<noteq> device \<longrightarrow> devs w' d' = devs w d') \<and>
    connected_node (devs w' device) = connected_node (devs w device) \<and>
    (case visit_of r w device of
       None \<Rightarrow> visited (probe (devs w' device)) = visited (probe (devs w device)) \<and>
               frontier (probe (devs w' device)) = frontier (probe (devs w device))
     | Some (d, n) \<Rightarrow> d = distance (probe (devs w device)) \<and>
               n \<in> fr_at (probe (devs w device)) d \<and> n \<notin> visited (probe (devs w device)) \<and>
               visited (probe (devs w' device)) = insert n (visited (probe (devs w device))) \<and>
               distance (probe (devs w' device)) = d \<and>
               (\<forall>k. fr_at (probe (devs w' device)) k =
                     (if k = Suc d then fr_at (probe (devs w device)) k \<union> nbrs w n
                      else fr_at (probe (devs w device)) k)))"
  using it
proof (cases rule: find_node_iter_elim)
  case exit
  then show ?thesis using fin
    by (simp add: visit_of_def dict_last_key_def Let_def)
next
  case (incr S)
  have "S - visited (probe (devs w device)) = {}" using incr(6) by auto
  then have "visit_of r w device = None" using incr
    by (simp add: visit_of_def dict_last_key_def dict_getitem_def Let_def)
  then show ?thesis using incr(2) fin by (simp add: devs_set_probe fin_ok_def)
next
  case (visit S n node' d)
  let ?p = "probe (devs w device)"
  have ne: "S - visited ?p \<noteq> {}" using visit(4) by (rule rand_from_set_Inr)
  have fS: "finite (S - visited ?p)" using fin visit(3) by (auto simp: fin_ok_def)
  from rand_from_set_in[OF fS ne, of r] have nin: "n \<in> S - visited ?p" using visit(4) by auto
  have v: "visit_of r w device = Some (distance ?p, n)" using visit(1-4) ne
    by (simp add: visit_of_def dict_last_key_def dict_getitem_def Let_def)
  have res: "resources node' = resources (nodes w n) \<and> neighbors node' = neighbors (nodes w n)"
    by (cases rule: add_device_cases[of "nodes w n" "devs w" device]) (use visit(5) in auto)
  have nb: "nbrs w' = nbrs w" using visit(6) res by (auto simp: nbrs_def set_probe_def fun_eq_iff)
  have pr: "probe (devs w' device) = ?p\<lparr>visited := insert n (visited ?p),
      frontier := frontier_add (frontier ?p) (Suc (distance ?p)) (nbrs w n)\<rparr>"
    using visit(6) by (simp add: set_probe_def)
  have f': "fin_ok w' device" unfolding fin_ok_def nb pr
    using fin by (auto simp: fin_ok_def map_of_frontier_add split: if_splits option.splits)
  have sin: "n \<in> fr_at ?p (distance ?p)" using nin visit(3) by (simp add: fr_at_def)
  have fq: "frontier (probe (devs w' device)) =
      frontier_add (frontier ?p) (Suc (distance ?p)) (nbrs w n)" by (simp add: pr)
  have fr: "\<forall>k. fr_at (probe (devs w' device)) k =
      (if k = Suc (distance ?p) then fr_at ?p k \<union> nbrs w n else fr_at ?p k)"
    using fr_at_frontier_add[OF fq] by simp
  have vi: "visited (probe (devs w' device)) = insert n (visited ?p)"
    and di: "distance (probe (devs w' device)) = distance ?p" by (simp_all add: pr)
  have ot: "\<forall>d'. d' \<noteq> device \<longrightarrow> devs w' d' = devs w d'"
    and cn: "connected_node (devs w' device) = connected_node (devs w device)"
    using visit(6) by (simp_all add: devs_set_probe)
  show ?thesis unfolding v using nb f' nin sin fr vi di ot cn by simp
qed

lemma step_stack:
  assumes "step r (w, st) = Inr (w', st')"
  shows "st' = [] \<or> st' = st \<or> (\<exists>d. st' = d # st)"
proof (cases st)
  case Nil
  then show ?thesis using assms by (simp add: step_def)
next
  case (Cons device callers)
  then obtain ctl w1 where "find_node_iter r w device = Inr (ctl, w1)"
    using assms by (auto simp: step_def split: sum.splits)
  then show ?thesis using assms Cons by (cases ctl) (auto simp: step_def)
qed

lemma run_empty_stack: "run rs (w, []) = Inr (w, [])"
  by (induction rs) (simp_all add: step_def)

lemma run_stack:
  "run rs (w, st) = Inr (w', st') \<Longrightarrow> st' = [] \<or> (\<exists>pre. st' = pre @ st)"
proof (induction rs arbitrary: w st)
  case Nil
  then show ?case by simp
next
  case (Cons r rs)
  from Cons.prems obtain w1 st1 where s: "step r (w, st) = Inr (w1, st1)" "run rs (w1, st1) = Inr (w', st')"
    by (auto split: sum.splits)
  show ?case
  proof (cases "st1 = []")
    case True
    then show ?thesis using s(2) run_empty_stack[of rs w1] by simp
  next
    case False
    then show ?thesis using Cons.IH[OF s(2)] step_stack[OF s(1)] by auto
  qed
qed

lemma run_append:
  "run (rs @ rs') c = (case run rs c of Inl e \<Rightarrow> Inl e | Inr c1 \<Rightarrow> run rs' c1)"
  by (induction rs arbitrary: c) (auto split: sum.splits)

lemma visits_append:
  "run rs c = Inr c1 \<Longrightarrow> visits (rs @ rs') c = visits rs c @ visits rs' c1"
  by (induction rs arbitrary: c) (auto split: sum.splits)

lemma run_snoc_same:
  assumes "run (rs @ [r]) (w, st) = Inr (w2, st2)" "st \<noteq> []" "st2 = st \<or> True"
  shows "\<exists>w1 st1. run rs (w, st) = Inr (w1, st1) \<and> step r (w1, st1) = Inr (w2, st2)"
  using assms(1) by (auto simp: run_append split: sum.splits)

lemma step_back_same:
  assumes "step r (w1, st1) = Inr (w2, st)" "st \<noteq> []" "st1 = [] \<or> (\<exists>pre. st1 = pre @ st)"
  shows "st1 = st"
proof -
  from assms(3) obtain pre where p: "st1 = pre @ st" using assms(1,2) by (auto simp: step_def)
  from step_stack[OF assms(1)] assms(2) p show ?thesis by (cases pre) auto
qed

lemma step_iter:
  assumes "step r (w, device # callers) = Inr (w2, st2)"
  shows "\<exists>ctl w'. find_node_iter r w device = Inr (ctl, w') \<and> devs w2 device = devs w' device \<and>
           nbrs w2 = nbrs w'"
proof -
  from assms obtain ctl w' where it: "find_node_iter r w device = Inr (ctl, w')"
    by (auto simp: step_def split: sum.splits)
  show ?thesis
  proof (cases ctl)
    case (Call d)
    then have "d \<noteq> device" using find_node_iter_Call_probe it by blast
    then show ?thesis using assms it Call
      by (auto simp: step_def find_node_enter_def devs_set_probe)
  qed (use assms it in \<open>auto simp: step_def\<close>)
qed

lemma visited_at_append:
  "visited_at (xs @ ys) device k = visited_at xs device k \<union> visited_at ys device k"
  by (simp add: visited_at_def)

lemma search_log_step:
  assumes ok: "search_log_ok w0 device log w1"
    and st: "step r (w1, device # callers) = Inr (w2, st2)"
  shows "search_log_ok w0 device (log @ visits [r] (w1, device # callers)) w2"
proof -
  from step_iter[OF st] obtain ctl w' where
    it: "find_node_iter r w1 device = Inr (ctl, w')" and dv: "devs w2 device = devs w' device"
    and nb: "nbrs w2 = nbrs w'" by blast
  have fin: "fin_ok w1 device" and nb1: "nbrs w1 = nbrs w0" using ok by (simp_all add: search_log_ok_def)
  note vi = visit_of_iter[OF it fin]
  have f1: "fin_ok w' device" using vi by blast
  have f2: "fin_ok w2 device" using f1 unfolding fin_ok_def nb dv .
  have vs: "visits [r] (w1, device # callers) =
      (case visit_of r w1 device of None \<Rightarrow> [] | Some (d, n) \<Rightarrow> [(device, d, n)])"
    using st by simp
  show ?thesis
  proof (cases "visit_of r w1 device")
    case None
    then show ?thesis using ok vi nb dv f2 unfolding vs by (simp add: search_log_ok_def fr_at_def)
  next
    case (Some dn)
    obtain d n where dn: "dn = (d, n)" by (cases dn)
    let ?p0 = "probe (devs w0 device)" and ?p1 = "probe (devs w1 device)"
    have a: "d = distance ?p1" "n \<notin> visited ?p1"
      "visited (probe (devs w' device)) = insert n (visited ?p1)"
      "\<forall>k. fr_at (probe (devs w' device)) k = (if k = Suc d then fr_at ?p1 k \<union> nbrs w1 n else fr_at ?p1 k)"
      using vi Some dn by simp_all
    have v1: "visited ?p1 = visited ?p0 \<union> (\<lambda>e. snd (snd e)) ` set log"
      and fr1: "\<forall>k. fr_at ?p1 (Suc k) = fr_at ?p0 (Suc k) \<union> (\<Union>n \<in> visited_at log device k. nbrs w0 n)"
      using ok by (simp_all add: search_log_ok_def)
    have va: "\<And>k. visited_at [(device, d, n)] device k = (if k = d then {n} else {})"
      by (simp add: visited_at_def)
    have "\<forall>k. fr_at (probe (devs w2 device)) (Suc k) =
            fr_at ?p0 (Suc k) \<union> (\<Union>n \<in> visited_at (log @ [(device, d, n)]) device k. nbrs w0 n)"
      using a(4) fr1 nb1 by (auto simp: dv visited_at_append va)
    moreover have "visited (probe (devs w2 device)) =
        visited ?p0 \<union> (\<lambda>e. snd (snd e)) ` set (log @ [(device, d, n)])"
      using a(3) v1 by (auto simp: dv)
    moreover have "distinct (map (\<lambda>e. snd (snd e)) (log @ [(device, d, n)]))"
      using ok a(2) v1 by (auto simp: search_log_ok_def)
    moreover have "\<forall>e \<in> set (log @ [(device, d, n)]). fst e = device \<and> snd (snd e) \<notin> visited ?p0"
      using ok a(2) v1 by (auto simp: search_log_ok_def)
    ultimately show ?thesis using vi nb nb1 f2 unfolding vs Some dn
      by (simp add: search_log_ok_def)
  qed
qed

lemma search_log_run:
  assumes "fin_ok w0 device"
  shows "run rs (w0, device # callers) = Inr (w1, device # callers) \<Longrightarrow>
         search_log_ok w0 device (visits rs (w0, device # callers)) w1"
proof (induction rs arbitrary: w1 rule: rev_induct)
  case Nil
  then show ?case using assms by (simp add: search_log_ok_def visited_at_def)
next
  case (snoc r rs)
  let ?st = "device # callers"
  from snoc.prems obtain wa sta where
    a: "run rs (w0, ?st) = Inr (wa, sta)" "step r (wa, sta) = Inr (w1, ?st)"
    by (auto simp: run_append split: sum.splits)
  have "sta = ?st" using step_back_same[OF a(2) _ run_stack[OF a(1)]] by simp
  then have b: "run rs (w0, ?st) = Inr (wa, ?st)" "step r (wa, ?st) = Inr (w1, ?st)" using a by simp_all
  from search_log_step[OF snoc.IH[OF b(1)] b(2)] show ?case
    using visits_append[OF b(1), of "[r]"] by simp
qed

text \<open>
  Claim C5, as amended. Throughout a call of \<^verbatim>\<open>find_node\<close> (after any number of
  iterations that continue the loop, and one more iteration of any outcome), the search
  has probed no node that was in its visited set: the probed nodes are pairwise different
  and were not visited before, and the visited set has grown by exactly them. The
  frontier entry for distance \<open>d + 1\<close> is the entry as the run found it together with the
  neighbours of the nodes probed at distance \<open>d\<close>; when the run starts from the frontier
  \<open>{0: {origin}}\<close> of a probe that has not searched before, the entry is exactly the union
  of the neighbour sets of the nodes probed at distance \<open>d\<close>.
\<close>

theorem frontier_growth:
  assumes "fin_ok w0 device"
    and "run rs (w0, device # callers) = Inr (w1, device # callers)"
    and "step r (w1, device # callers) = Inr (w2, st2)"
  shows "(\<forall>e \<in> set (visits (rs @ [r]) (w0, device # callers)).
            fst e = device \<and> snd (snd e) \<notin> visited (probe (devs w0 device))) \<and>
         distinct (map (\<lambda>e. snd (snd e)) (visits (rs @ [r]) (w0, device # callers))) \<and>
         visited (probe (devs w2 device)) =
           visited (probe (devs w0 device)) \<union>
           (\<lambda>e. snd (snd e)) ` set (visits (rs @ [r]) (w0, device # callers)) \<and>
         (\<forall>d. fr_at (probe (devs w2 device)) (Suc d) =
              fr_at (probe (devs w0 device)) (Suc d) \<union>
              (\<Union>n \<in> visited_at (visits (rs @ [r]) (w0, device # callers)) device d. nbrs w0 n)) \<and>
         (frontier (probe (devs w0 device)) = [(0, {connected_node (devs w0 device)})] \<longrightarrow>
            (\<forall>d. fr_at (probe (devs w2 device)) (Suc d) =
              (\<Union>n \<in> visited_at (visits (rs @ [r]) (w0, device # callers)) device d. nbrs w0 n)))"
proof -
  let ?log = "visits (rs @ [r]) (w0, device # callers)"
  have "search_log_ok w0 device (visits rs (w0, device # callers) @ visits [r] (w1, device # callers)) w2"
    using search_log_step[OF search_log_run[OF assms(1,2)] assms(3)] .
  then have ok: "search_log_ok w0 device ?log w2" using visits_append[OF assms(2), of "[r]"] by simp
  have "\<forall>d. fr_at (probe (devs w0 device)) (Suc d) = {}"
    if "frontier (probe (devs w0 device)) = [(0, {connected_node (devs w0 device)})]"
    using that by (simp add: fr_at_def)
  then show ?thesis using ok unfolding search_log_ok_def by simp
qed

lemma ex_held:
  "(case run [0, 0] (assign_device w_held 5) of Inr (w, st) \<Rightarrow> st | Inl e \<Rightarrow> []) = [5] \<and>
   (case run [0, 0, 0] (assign_device w_held 5) of Inr (w, st) \<Rightarrow> (True, st) | Inl e \<Rightarrow> (False, [])) = (True, []) \<and>
   visits [0, 0, 0] (assign_device w_held 5) = [(5, 0, 0), (5, 1, 1)]"
  by code_simp

theorem frontier_growth_witness:
  "\<exists>w2. run [0, 0, 0] (assign_device w_held 5) = Inr (w2, []) \<and>
     visits [0, 0, 0] (assign_device w_held 5) = [(5, 0, 0), (5, 1, 1)] \<and>
     visited (probe (devs w2 5)) = {0, 1} \<and>
     fr_at (probe (devs w2 5)) 1 = {1, 2} \<and> fr_at (probe (devs w2 5)) 2 = {0, 3}"
proof -
  let ?w0 = "find_node_enter w_held 5"
  have c0: "assign_device w_held 5 = (?w0, [5])" by (simp add: assign_device_def)
  obtain w1 where r1: "run [0, 0] (?w0, [5]) = Inr (w1, [5])"
    using ex_held unfolding c0 by (auto split: sum.splits prod.splits)
  obtain w2 where r2: "run [0, 0, 0] (?w0, [5]) = Inr (w2, [])"
    using ex_held unfolding c0 by (auto split: sum.splits prod.splits)
  have "run ([0, 0] @ [0]) (?w0, [5]) = Inr (w2, [])" using r2 by simp
  then have s: "step 0 (w1, [5]) = Inr (w2, [])" unfolding run_append r1 by (simp split: sum.splits)
  have nb: "nbrs ?w0 = nbrs w_ex"
    by (simp add: assign_device_def find_node_enter_def w_held_def w_ex_def nbrs_def nodes_ex_def fun_eq_iff)
  have nbv: "nbrs w_ex 0 = {1, 2}" "nbrs w_ex 1 = {0, 3}"
    by (simp_all add: nbrs_def w_ex_def nodes_ex_def)
  have p0: "probe (devs ?w0 5) = Probe_init 0" "connected_node (devs ?w0 5) = 0"
    by (simp_all add: assign_device_def devs_find_node_enter w_held_def w_ex_def ds0_def Device_init_def
          Probe_init_def)
  have fin: "fin_ok ?w0 5" unfolding fin_ok_def nb
    by (auto simp: p0 Probe_init_def nbrs_def w_ex_def nodes_ex_def split: if_splits)
  have lg: "visits ([0, 0] @ [0]) (?w0, [5]) = [(5, 0, 0), (5, 1, 1)]" using ex_held unfolding c0 by simp
  have va: "visited_at [(5, 0, 0), (5, 1, 1)] 5 0 = {0}" "visited_at [(5, 0, 0), (5, 1, 1)] 5 (Suc 0) = {1}"
    by code_simp+
  note fg = frontier_growth[OF fin r1 s, unfolded lg]
  have A: "visited (probe (devs w2 5)) =
      visited (probe (devs ?w0 5)) \<union> (\<lambda>e. snd (snd e)) ` set ([(5, 0, 0), (5, 1, 1)] :: (nat \<times> nat \<times> nat) list)"
    by (rule fg[THEN conjunct2, THEN conjunct2, THEN conjunct1])
  have B: "frontier (probe (devs ?w0 5)) = [(0, {connected_node (devs ?w0 5)})] \<longrightarrow>
      (\<forall>d. fr_at (probe (devs w2 5)) (Suc d) =
         (\<Union>n \<in> visited_at [(5, 0, 0), (5, 1, 1)] 5 d. nbrs ?w0 n))"
    by (rule fg[THEN conjunct2, THEN conjunct2, THEN conjunct2, THEN conjunct2])
  have fr0: "frontier (probe (devs ?w0 5)) = [(0, {connected_node (devs ?w0 5)})]"
    by (simp add: p0 Probe_init_def)
  have v: "visited (probe (devs w2 5)) = {0, 1}" using A by (auto simp: p0 Probe_init_def)
  have f1: "fr_at (probe (devs w2 5)) (Suc 0) = {1, 2}"
    using B fr0 va(1) nb nbv(1) by simp
  have f2: "fr_at (probe (devs w2 5)) (Suc (Suc 0)) = {0, 3}"
    using B fr0 va(2) nb nbv(2) by simp
  have n2: "(2::nat) = Suc (Suc 0)" by simp
  show ?thesis using r2 c0 lg v f1 f2 unfolding n2 by simp
qed

text \<open>
  Claim C5 as stated fails in a restarted search: in the example, device 5 first probes
  nodes 0 and 1 and is placed on node 1, which puts the neighbours 0 and 3 of node 1 in
  entry 2; evicted by device 7, its second call probes node 0 and then node 2 at distance
  1, and entry 2 still is \<open>{0, 3}\<close>, not the neighbours \<open>{0}\<close> of node 2.
\<close>

theorem frontier_exact_counterexample:
  "stack_after [0,0, 0,0,0,0, 0,0,0,0] ((w_ex, []), [9, 5, 7]) = [5, 7] \<and>
   visited (probe (devs (world_after [0,0, 0,0,0,0, 0,0,0,0] ((w_ex, []), [9, 5, 7])) 5)) = {} \<and>
   visits [0, 0, 1] (world_after [0,0, 0,0,0,0, 0,0,0,0] ((w_ex, []), [9, 5, 7]), [5, 7])
     = [(5, 0, 0), (5, 1, 2)] \<and>
   fr_at (probe (devs (world_after [0,0, 0,0,0,0, 0,0,0,0, 0,0,1] ((w_ex, []), [9, 5, 7])) 5)) 2
     = {0, 3} \<and>
   (\<Union>n \<in> visited_at (visits [0, 0, 1]
        (world_after [0,0, 0,0,0,0, 0,0,0,0] ((w_ex, []), [9, 5, 7]), [5, 7])) 5 1.
      nbrs (world_after [0,0, 0,0,0,0, 0,0,0,0] ((w_ex, []), [9, 5, 7])) n) = {0} \<and>
   fr_at (probe (devs (world_after [0,0, 0,0,0,0, 0,0,0,0, 0,0,1] ((w_ex, []), [9, 5, 7])) 5)) 2
     \<noteq> (\<Union>n \<in> visited_at (visits [0, 0, 1]
        (world_after [0,0, 0,0,0,0, 0,0,0,0] ((w_ex, []), [9, 5, 7]), [5, 7])) 5 1.
      nbrs (world_after [0,0, 0,0,0,0, 0,0,0,0] ((w_ex, []), [9, 5, 7])) n)"
  by code_simp

section \<open>Distances in the graph\<close>

lemma ball_Suc_mono: "ball g orig k \<subseteq> ball g orig (Suc k)"
  by auto

lemma ball_mono: "i \<le> j \<Longrightarrow> ball g orig i \<subseteq> ball g orig j"
  by (induction j) (auto simp: le_Suc_eq)

lemma ball_nbrs: "n \<in> ball g orig k \<Longrightarrow> g n \<subseteq> ball g orig (Suc k)"
  by auto

lemma sphere_sub_ball: "sphere g orig k \<subseteq> ball g orig k"
  by (cases k) auto

lemma ball_sphere: "n \<in> ball g orig k \<Longrightarrow> \<exists>j \<le> k. n \<in> sphere g orig j"
proof (induction k)
  case 0
  then show ?case by auto
next
  case (Suc k)
  show ?case
  proof (cases "n \<in> ball g orig k")
    case True
    then show ?thesis using Suc.IH by (auto simp: le_Suc_eq)
  next
    case False
    then have "n \<in> sphere g orig (Suc k)" using Suc.prems by simp
    then show ?thesis by blast
  qed
qed

lemma sphere_disjoint:
  assumes "i < j" shows "sphere g orig i \<inter> sphere g orig j = {}"
proof -
  obtain j' where j: "j = Suc j'" using assms by (cases j) auto
  have "sphere g orig i \<subseteq> ball g orig j'" using sphere_sub_ball ball_mono[of i j' g orig] assms j
    by fastforce
  then show ?thesis using j by auto
qed

lemma sphere_unique: "n \<in> sphere g orig i \<Longrightarrow> n \<in> sphere g orig j \<Longrightarrow> i = j"
  using sphere_disjoint[of i j g orig] sphere_disjoint[of j i g orig]
  by (cases i j rule: linorder_cases) auto

lemma sphere_Suc_sub: "sphere g orig (Suc k) \<subseteq> (\<Union>n \<in> sphere g orig k. g n)"
proof
  fix m assume m: "m \<in> sphere g orig (Suc k)"
  then obtain n where n: "n \<in> ball g orig k" "m \<in> g n" and mk: "m \<notin> ball g orig k" by auto
  have "n \<in> sphere g orig k"
  proof (cases k)
    case 0
    then show ?thesis using n by simp
  next
    case (Suc k')
    have "n \<notin> ball g orig k'"
    proof
      assume "n \<in> ball g orig k'"
      then have "m \<in> ball g orig (Suc k')" using n(2) by auto
      then show False using mk Suc by simp
    qed
    then show ?thesis using n(1) Suc by simp
  qed
  then show "m \<in> (\<Union>n \<in> sphere g orig k. g n)" using n(2) by blast
qed

lemma ball_sub_reachable: "ball g orig k \<subseteq> reachable g orig"
proof (induction k)
  case 0
  then show ?case by (simp add: reachable_def)
next
  case (Suc k)
  have "\<And>n m. n \<in> reachable g orig \<Longrightarrow> m \<in> g n \<Longrightarrow> m \<in> reachable g orig"
    unfolding reachable_def by (auto intro: rtrancl_into_rtrancl)
  then show ?case using Suc by auto
qed

lemma reachable_sub:
  assumes "orig \<in> V" "\<forall>n \<in> V. g n \<subseteq> V"
  shows "reachable g orig \<subseteq> V"
proof
  fix n assume "n \<in> reachable g orig"
  then have "(orig, n) \<in> {(a, b). b \<in> g a}\<^sup>*" by (simp add: reachable_def)
  then show "n \<in> V" using assms by (induction rule: rtrancl_induct) auto
qed

lemma card_ball_lower:
  assumes fin: "finite (reachable g orig)" and ne: "\<forall>j \<le> k. sphere g orig j \<noteq> {}"
  shows "Suc k \<le> card (ball g orig k)"
  using ne
proof (induction k)
  case 0
  show ?case by simp
next
  case (Suc k)
  have fb: "finite (ball g orig (Suc k))" by (rule finite_subset[OF ball_sub_reachable fin])
  have sub: "ball g orig k \<subseteq> ball g orig (Suc k)" by auto
  obtain x where x: "x \<in> sphere g orig (Suc k)" using Suc.prems by blast
  then have "x \<in> ball g orig (Suc k)" "x \<notin> ball g orig k" by auto
  then have "ball g orig k \<subset> ball g orig (Suc k)" using sub by blast
  then have "card (ball g orig k) < card (ball g orig (Suc k))" using fb by (simp add: psubset_card_mono)
  moreover have "Suc k \<le> card (ball g orig k)"
  proof (rule Suc.IH)
    show "\<forall>j\<le>k. sphere g orig j \<noteq> {}" using Suc.prems by (meson le_SucI)
  qed
  ultimately show ?case by simp
qed

lemma spheres_bound:
  assumes fin: "finite (reachable g orig)" and ne: "\<forall>j < K. sphere g orig j \<noteq> {}"
  shows "K \<le> card (reachable g orig)"
proof (cases K)
  case 0
  then show ?thesis by simp
next
  case (Suc k)
  then have "\<forall>j \<le> k. sphere g orig j \<noteq> {}" using ne by simp
  from card_ball_lower[OF fin this] have "K \<le> card (ball g orig k)" using Suc by simp
  also have "\<dots> \<le> card (reachable g orig)" using fin ball_sub_reachable by (simp add: card_mono)
  finally show ?thesis .
qed

section \<open>Invariants of a probe\<close>

lemma search_ok_alt:
  "search_ok w device =
     probe_search_ok (nbrs w) (connected_node (devs w device)) (probe (devs w device))"
  by (simp add: search_ok_def probe_search_ok_def Let_def)

lemma keys_map_of:
  assumes "map fst fr = [0..<length fr]"
  shows "(\<exists>S. map_of fr j = Some S) \<longleftrightarrow> j < length fr"
proof -
  have "(map_of fr j \<noteq> None) \<longleftrightarrow> j \<in> set (map fst fr)" by (simp add: map_of_eq_None_iff)
  then show ?thesis unfolding assms by auto
qed

lemma keys_last:
  assumes "map fst fr = [0..<length fr]" "fr \<noteq> []"
  shows "fst (last fr) = length fr - 1"
proof -
  have "fst (last fr) = last (map fst fr)" using assms(2) by (simp add: last_map)
  also have "\<dots> = last [0..<length fr]" using assms(1) by simp
  also have "\<dots> = length fr - 1" using assms(2) by (cases "length fr") auto
  finally show ?thesis .
qed

lemma keys_in: "map fst fr = [0..<length fr] \<Longrightarrow> k \<in> fst ` set fr \<longleftrightarrow> k < length fr"
proof -
  assume a: "map fst fr = [0..<length fr]"
  have "fst ` set fr = set (map fst fr)" by simp
  then show ?thesis unfolding a by simp
qed

lemma length_frontier_add:
  "length (frontier_add fr k N) = (if k \<in> fst ` set fr then length fr else Suc (length fr))"
proof -
  have "length (frontier_add fr k N) = length (map fst (frontier_add fr k N))" by simp
  then show ?thesis unfolding keys_frontier_add by simp
qed

lemma fr_at_sub_ball:
  "probe_ok g orig p \<Longrightarrow> fr_at p j \<subseteq> ball g orig j"
  by (auto simp: probe_ok_def fr_at_def split: option.splits)

lemma sphere_of_unvisited:
  assumes ok: "probe_ok g orig p" and so: "probe_search_ok g orig p"
    and n: "n \<in> fr_at p (distance p)" "n \<notin> visited p"
  shows "n \<in> sphere g orig (distance p)"
proof -
  have "n \<in> ball g orig (distance p)" using fr_at_sub_ball[OF ok] n(1) by blast
  then obtain j where j: "j \<le> distance p" "n \<in> sphere g orig j" using ball_sphere by blast
  have "\<not> j < distance p" using so j(2) n(2) by (auto simp: probe_search_ok_def)
  then show ?thesis using j by simp
qed

lemma probe_ok_enter:
  assumes "probe_ok g orig p"
  shows "probe_ok g orig (p\<lparr>distance := 0, visited := {}\<rparr>)"
    and "probe_search_ok g orig (p\<lparr>distance := 0, visited := {}\<rparr>)"
  using assms by (auto simp: probe_ok_def probe_search_ok_def fr_at_def)

lemma probe_search_ok_incr:
  assumes ok: "probe_ok g orig p" and so: "probe_search_ok g orig p"
    and d: "distance p < length (frontier p)" and v: "fr_at p (distance p) \<subseteq> visited p"
  shows "probe_search_ok g orig (p\<lparr>distance := Suc (distance p)\<rparr>)"
proof -
  let ?d = "distance p"
  have B: "\<forall>j < ?d. sphere g orig j \<subseteq> visited p"
    and A: "\<forall>n \<in> visited p. \<exists>i \<le> ?d. n \<in> sphere g orig i \<and> g n \<subseteq> fr_at p (Suc i)"
    and C: "sphere g orig ?d \<subseteq> fr_at p ?d"
    using so d by (auto simp: probe_search_ok_def)
  have B': "\<forall>j < Suc ?d. sphere g orig j \<subseteq> visited p"
  proof (intro allI impI)
    fix j assume "j < Suc ?d"
    then show "sphere g orig j \<subseteq> visited p" using B C v by (cases "j = ?d") auto
  qed
  have A': "\<forall>n \<in> visited p. \<exists>i \<le> Suc ?d. n \<in> sphere g orig i \<and> g n \<subseteq> fr_at p (Suc i)"
    using A by (meson le_SucI)
  have C': "sphere g orig (Suc ?d) \<subseteq> fr_at p (Suc ?d)"
  proof
    fix m assume "m \<in> sphere g orig (Suc ?d)"
    then obtain n where n: "n \<in> sphere g orig ?d" "m \<in> g n" using sphere_Suc_sub by blast
    then have "n \<in> visited p" using C v by blast
    then obtain i where i: "n \<in> sphere g orig i" "g n \<subseteq> fr_at p (Suc i)" using A by blast
    have "i = ?d" using sphere_unique[OF i(1) n(1)] .
    then show "m \<in> fr_at p (Suc ?d)" using i(2) n(2) by blast
  qed
  have fa: "\<And>k. fr_at (p\<lparr>distance := Suc ?d\<rparr>) k = fr_at p k" by (simp add: fr_at_def)
  show ?thesis unfolding probe_search_ok_def fa using d B' A' C' by simp
qed

lemma probe_ok_visit:
  assumes ok: "probe_ok g orig p" and so: "probe_search_ok g orig p"
    and d: "distance p < length (frontier p)"
    and n: "n \<in> fr_at p (distance p)" "n \<notin> visited p"
  shows "probe_ok g orig (p\<lparr>visited := insert n (visited p),
            frontier := frontier_add (frontier p) (Suc (distance p)) (g n)\<rparr>)"
    and "probe_search_ok g orig (p\<lparr>visited := insert n (visited p),
            frontier := frontier_add (frontier p) (Suc (distance p)) (g n)\<rparr>)"
proof -
  let ?d = "distance p"
  let ?fr = "frontier_add (frontier p) (Suc ?d) (g n)"
  let ?p = "p\<lparr>visited := insert n (visited p), frontier := ?fr\<rparr>"
  have keys: "map fst (frontier p) = [0..<length (frontier p)]" and ne: "frontier p \<noteq> []"
    and z: "map_of (frontier p) 0 = Some {orig}"
    and K: "\<forall>j. Suc j < length (frontier p) \<longrightarrow> sphere g orig j \<noteq> {}"
    using ok by (auto simp: probe_ok_def)
  have ns: "n \<in> sphere g orig ?d" using sphere_of_unvisited[OF ok so n] .
  have fa: "\<And>k. fr_at ?p k = (if k = Suc ?d then fr_at p k \<union> g n else fr_at p k)"
    using fr_at_frontier_add[of ?p p "Suc ?d" "g n"] by simp
  have len: "length ?fr = (if Suc ?d < length (frontier p) then length (frontier p) else Suc (length (frontier p)))"
    unfolding length_frontier_add keys_in[OF keys] by simp
  have len_ge: "length (frontier p) \<le> length ?fr" using len by simp
  have keys': "map fst ?fr = [0..<length ?fr]"
  proof (cases "Suc ?d < length (frontier p)")
    case True
    then show ?thesis unfolding keys_frontier_add keys_in[OF keys] len using keys by simp
  next
    case False
    then have "Suc ?d = length (frontier p)" using d by simp
    then show ?thesis unfolding keys_frontier_add keys_in[OF keys] len using keys by simp
  qed
  have nb: "g n \<subseteq> ball g orig (Suc ?d)" using ball_nbrs sphere_sub_ball ns by blast
  have W': "\<forall>j S. map_of ?fr j = Some S \<longrightarrow> S \<subseteq> ball g orig j"
  proof (intro allI impI)
    fix j S assume a: "map_of ?fr j = Some S"
    show "S \<subseteq> ball g orig j"
    proof (cases "j = Suc ?d")
      case True
      then have "S = fr_at p (Suc ?d) \<union> g n" using a by (simp add: map_of_frontier_add fr_at_def)
      then show ?thesis using True fr_at_sub_ball[OF ok, of "Suc ?d"] nb by auto
    next
      case False
      then have "map_of (frontier p) j = Some S" using a by (simp add: map_of_frontier_add)
      then show ?thesis using ok by (auto simp: probe_ok_def)
    qed
  qed
  have K': "\<forall>j. Suc j < length ?fr \<longrightarrow> sphere g orig j \<noteq> {}"
  proof (intro allI impI)
    fix j assume a: "Suc j < length ?fr"
    show "sphere g orig j \<noteq> {}"
    proof (cases "Suc j < length (frontier p)")
      case True
      then show ?thesis using K by simp
    next
      case False
      then have "j = ?d" using a len d by (auto split: if_splits)
      then show ?thesis using ns by auto
    qed
  qed
  have z': "map_of ?fr 0 = Some {orig}" using z by (simp add: map_of_frontier_add)
  have ne': "?fr \<noteq> []" using len_ge ne by auto
  show "probe_ok g orig ?p" unfolding probe_ok_def using ne' keys' z' W' K' by simp
  have B: "\<forall>j < ?d. sphere g orig j \<subseteq> visited p"
    and A: "\<forall>m \<in> visited p. \<exists>i \<le> ?d. m \<in> sphere g orig i \<and> g m \<subseteq> fr_at p (Suc i)"
    and C: "sphere g orig ?d \<subseteq> fr_at p ?d"
    using so d by (auto simp: probe_search_ok_def)
  have A': "\<forall>m \<in> insert n (visited p). \<exists>i \<le> ?d. m \<in> sphere g orig i \<and> g m \<subseteq> fr_at ?p (Suc i)"
  proof
    fix m assume m: "m \<in> insert n (visited p)"
    show "\<exists>i \<le> ?d. m \<in> sphere g orig i \<and> g m \<subseteq> fr_at ?p (Suc i)"
    proof (cases "m = n")
      case True
      have "g n \<subseteq> fr_at ?p (Suc ?d)" using fa[of "Suc ?d"] by auto
      then show ?thesis using ns True by blast
    next
      case False
      then obtain i where i: "i \<le> ?d" "m \<in> sphere g orig i" "g m \<subseteq> fr_at p (Suc i)"
        using A m by blast
      have "g m \<subseteq> fr_at ?p (Suc i)" using i(3) fa[of "Suc i"] by auto
      then show ?thesis using i(1,2) by blast
    qed
  qed
  show "probe_search_ok g orig ?p" unfolding probe_search_ok_def
    using d len_ge B A' C fa by auto
qed

lemma search_bound:
  assumes fin: "finite (reachable g orig)" and ok: "probe_ok g orig p" and so: "probe_search_ok g orig p"
  shows "visited p \<subseteq> reachable g orig"
    and "card (visited p) \<le> card (reachable g orig)"
    and "length (frontier p) \<le> Suc (card (reachable g orig))"
    and "card (visited p) + distance p \<le> 2 * card (reachable g orig) + 1"
proof -
  show v: "visited p \<subseteq> reachable g orig"
  proof
    fix n assume "n \<in> visited p"
    then obtain i where "n \<in> sphere g orig i" using so by (auto simp: probe_search_ok_def)
    then show "n \<in> reachable g orig" using sphere_sub_ball ball_sub_reachable by blast
  qed
  show c: "card (visited p) \<le> card (reachable g orig)" using v fin by (simp add: card_mono)
  have "\<forall>j < length (frontier p) - 1. sphere g orig j \<noteq> {}" using ok by (auto simp: probe_ok_def)
  from spheres_bound[OF fin this] show l: "length (frontier p) \<le> Suc (card (reachable g orig))" by simp
  have "distance p \<le> length (frontier p)" using so by (simp add: probe_search_ok_def)
  then show "card (visited p) + distance p \<le> 2 * card (reachable g orig) + 1" using c l by simp
qed

section \<open>Invariants of the store\<close>

lemma ball_sub_V:
  assumes "orig \<in> V" "\<forall>n. g n \<subseteq> V"
  shows "ball g orig k \<subseteq> V"
  using assms by (induction k) auto

lemma world_ok_reach:
  assumes "world_ok V w"
  shows "reachable (nbrs w) (connected_node (devs w d)) \<subseteq> V"
    and "finite (reachable (nbrs w) (connected_node (devs w d)))"
    and "card (reachable (nbrs w) (connected_node (devs w d))) \<le> card V"
proof -
  have a: "connected_node (devs w d) \<in> V" "\<forall>n \<in> V. nbrs w n \<subseteq> V" "finite V"
    using assms by (auto simp: world_ok_def)
  show s: "reachable (nbrs w) (connected_node (devs w d)) \<subseteq> V" using reachable_sub[OF a(1,2)] .
  show "finite (reachable (nbrs w) (connected_node (devs w d)))" using s a(3) by (rule finite_subset)
  show "card (reachable (nbrs w) (connected_node (devs w d))) \<le> card V" using s a(3) by (simp add: card_mono)
qed

lemma world_ok_fin:
  assumes "world_ok V w"
  shows "fin_ok w d"
  unfolding fin_ok_def
proof (intro conjI allI impI)
  have fV: "finite V" and nb: "\<forall>n. nbrs w n \<subseteq> V" and o: "connected_node (devs w d) \<in> V"
    and po: "probe_ok (nbrs w) (connected_node (devs w d)) (probe (devs w d))"
    using assms by (auto simp: world_ok_def)
  fix n show "finite (nbrs w n)" using nb fV finite_subset by blast
  fix j S assume "map_of (frontier (probe (devs w d))) j = Some S"
  then have "S \<subseteq> ball (nbrs w) (connected_node (devs w d)) j" using po by (auto simp: probe_ok_def)
  then have "S \<subseteq> V" using ball_sub_V[OF o nb] by blast
  then show "finite S" using fV finite_subset by blast
qed

lemma probe_ok_distance [simp]: "probe_ok g orig (p\<lparr>distance := x\<rparr>) = probe_ok g orig p"
  by (simp add: probe_ok_def)

lemma probe_loop_cond:
  assumes "probe_ok g orig p"
  shows "distance p \<le> fst (last (frontier p)) \<longleftrightarrow> distance p < length (frontier p)"
proof -
  have k: "map fst (frontier p) = [0..<length (frontier p)]" and ne: "frontier p \<noteq> []"
    using assms by (auto simp: probe_ok_def)
  show ?thesis unfolding keys_last[OF k ne] using ne by (cases "frontier p") auto
qed

lemma iter_total:
  assumes wo: "world_ok V w"
  shows "\<exists>ctl w'. find_node_iter r w device = Inr (ctl, w')"
proof -
  let ?p = "probe (devs w device)"
  have po: "probe_ok (nbrs w) (connected_node (devs w device)) ?p" using wo by (simp add: world_ok_def)
  have ne: "frontier ?p \<noteq> []" and keys: "map fst (frontier ?p) = [0..<length (frontier ?p)]"
    using po by (auto simp: probe_ok_def)
  show ?thesis
  proof (cases "distance ?p \<le> fst (last (frontier ?p))")
    case False
    then show ?thesis using ne by (simp add: find_node_iter_def dict_last_key_def Let_def)
  next
    case True
    then have "distance ?p < length (frontier ?p)" using probe_loop_cond[OF po] by simp
    then obtain S where S: "map_of (frontier ?p) (distance ?p) = Some S" using keys_map_of[OF keys] by blast
    have g1: "dict_getitem (frontier ?p) (distance ?p) = Inr S" using S by (simp add: dict_getitem_def)
    show ?thesis
    proof (cases "S - visited ?p = {}")
      case e: True
      then show ?thesis using ne True g1 by (simp add: find_node_iter_def dict_last_key_def Let_def)
    next
      case f: False
      have "finite S" using world_ok_fin[OF wo, of device] S by (auto simp: fin_ok_def)
      then have "finite (S - visited ?p)" by simp
      from rand_from_set_in[OF this f, of r] obtain n where n: "rand_from_set r (S - visited ?p) = Inr n"
        by blast
      let ?k = "Suc (distance ?p)"
      have g: "dict_getitem (dict_setdefault (frontier ?p) ?k {}) ?k =
          Inr (case map_of (frontier ?p) ?k of None \<Rightarrow> {} | Some s \<Rightarrow> s)"
        by (auto simp: dict_getitem_def dict_setdefault_def map_add_def split: option.splits)
      obtain node' d where a: "add_device (devs w) (nodes w n) device = Inr (node', d)"
        by (cases rule: add_device_cases[of "nodes w n" "devs w" device]) auto
      show ?thesis using ne True f
        by (cases d) (simp_all add: find_node_iter_def dict_last_key_def Let_def g1 n g a nodes_set_probe)
    qed
  qed
qed

lemma iter_ok:
  assumes wo: "world_ok V w" and so: "search_ok w device"
    and it: "find_node_iter r w device = Inr (ctl, w')"
  shows "world_ok V w'" and "search_ok w' device"
    and "\<forall>d. priority (devs w' d) = priority (devs w d)"
    and "ctl = Continue \<Longrightarrow> phi w' device = Suc (phi w device)"
    and "\<And>d'. ctl = Call d' \<Longrightarrow> prio_of (devs w) d' < prio_of (devs w) device"
proof -
  let ?p = "probe (devs w device)"
  let ?o = "connected_node (devs w device)"
  let ?g = "nbrs w"
  have fV: "finite V" and nb: "\<forall>n. nbrs w n \<subseteq> V"
    and all: "\<And>d. connected_node (devs w d) \<in> V \<and> probe_ok ?g (connected_node (devs w d)) (probe (devs w d))"
    using wo by (auto simp: world_ok_def)
  have po: "probe_ok ?g ?o ?p" using all by simp
  have pso: "probe_search_ok ?g ?o ?p" using so by (simp add: search_ok_alt)
  have "world_ok V w' \<and> search_ok w' device \<and> (\<forall>d. priority (devs w' d) = priority (devs w d)) \<and>
        (ctl = Continue \<longrightarrow> phi w' device = Suc (phi w device)) \<and>
        (\<forall>d'. ctl = Call d' \<longrightarrow> prio_of (devs w) d' < prio_of (devs w) device)"
    using it
  proof (cases rule: find_node_iter_elim)
    case exit
    then show ?thesis using wo so by simp
  next
    case (incr S)
    have d: "distance ?p < length (frontier ?p)" using incr(4) probe_loop_cond[OF po] by simp
    have v: "fr_at ?p (distance ?p) \<subseteq> visited ?p" using incr(5,6) by (simp add: fr_at_def)
    have s': "probe_search_ok ?g ?o (?p\<lparr>distance := Suc (distance ?p)\<rparr>)"
      using probe_search_ok_incr[OF po pso d v] .
    have w1: "world_ok V w'" unfolding world_ok_def incr(2)
      using fV nb all by (simp add: devs_set_probe)
    have s1: "search_ok w' device" unfolding search_ok_alt incr(2) using s' by (simp add: devs_set_probe)
    have ph: "phi w' device = Suc (phi w device)" unfolding incr(2) by (simp add: phi_def devs_set_probe)
    show ?thesis using w1 s1 ph incr(1) unfolding incr(2) by (simp add: devs_set_probe)
  next
    case (visit S n node' d0)
    have d: "distance ?p < length (frontier ?p)" using visit(2) probe_loop_cond[OF po] by simp
    have ne: "S - visited ?p \<noteq> {}" using visit(4) by (rule rand_from_set_Inr)
    have "finite S" using world_ok_fin[OF wo, of device] visit(3) by (auto simp: fin_ok_def)
    then have "finite (S - visited ?p)" by simp
    from rand_from_set_in[OF this ne, of r] have nin: "n \<in> S" "n \<notin> visited ?p" using visit(4) by auto
    have nf: "n \<in> fr_at ?p (distance ?p)" using nin(1) visit(3) by (simp add: fr_at_def)
    let ?p' = "?p\<lparr>visited := insert n (visited ?p),
                 frontier := frontier_add (frontier ?p) (Suc (distance ?p)) (?g n)\<rparr>"
    note pv = probe_ok_visit[OF po pso d nf nin(2)]
    have res: "neighbors node' = neighbors (nodes w n)"
      by (cases rule: add_device_cases[of "nodes w n" "devs w" device]) (use visit(5) in auto)
    have nb': "nbrs w' = nbrs w" unfolding visit(6) using res by (auto simp: nbrs_def set_probe_def fun_eq_iff)
    have dv: "\<And>d. devs w' d = (if d = device then (devs w device)\<lparr>probe := ?p'\<rparr> else devs w d)"
      unfolding visit(6) by (simp add: devs_set_probe)
    have w1: "world_ok V w'" unfolding world_ok_def nb' using fV nb all pv(1) by (simp add: dv)
    have s1: "search_ok w' device" unfolding search_ok_alt nb' using pv(2) by (simp add: dv)
    have fin_v: "finite (visited ?p)"
      using search_bound(1)[OF world_ok_reach(2)[OF wo] po pso] world_ok_reach(2)[OF wo, of device]
      by (rule finite_subset)
    have ph: "phi w' device = Suc (phi w device)"
      using nin(2) fin_v by (simp add: phi_def dv)
    have pr: "\<And>d'. ctl = Call d' \<Longrightarrow> prio_of (devs w) d' < prio_of (devs w) device"
    proof -
      fix d' assume c: "ctl = Call d'"
      then have d0: "d0 = Some d'" "d' \<noteq> device" using visit(7) by (auto split: option.splits if_splits)
      show "prio_of (devs w) d' < prio_of (devs w) device"
        by (cases rule: add_device_cases[of "nodes w n" "devs w" device]) (use visit(5) d0 in auto)
    qed
    show ?thesis using w1 s1 ph pr by (simp add: dv)
  qed
  then show "world_ok V w'" and "search_ok w' device"
    and "\<forall>d. priority (devs w' d) = priority (devs w d)"
    and "ctl = Continue \<Longrightarrow> phi w' device = Suc (phi w device)"
    and "\<And>d'. ctl = Call d' \<Longrightarrow> prio_of (devs w) d' < prio_of (devs w) device"
    by blast+
qed

section \<open>Termination of searches and cascades\<close>

lemma same_graph_refl [simp]: "same_graph w w"
  by (simp add: same_graph_def)

lemma same_graph_trans: "same_graph w w1 \<Longrightarrow> same_graph w1 w2 \<Longrightarrow> same_graph w w2"
  by (simp add: same_graph_def)

lemma same_graph_enter: "same_graph w (find_node_enter w d)"
  by (simp add: same_graph_def find_node_enter_def devs_set_probe)

lemma enter_ok:
  assumes "world_ok V w"
  shows "world_ok V (find_node_enter w d)" and "search_ok (find_node_enter w d) d"
    and "phi (find_node_enter w d) d = 0"
proof -
  have po: "\<And>d. probe_ok (nbrs w) (connected_node (devs w d)) (probe (devs w d))"
    using assms by (simp add: world_ok_def)
  note pe = probe_ok_enter[OF po[of d]]
  show "world_ok V (find_node_enter w d)"
    using assms pe(1) by (simp add: world_ok_def find_node_enter_def devs_set_probe)
  show "search_ok (find_node_enter w d) d"
    using pe(2) by (simp add: search_ok_alt find_node_enter_def devs_set_probe)
  show "phi (find_node_enter w d) d = 0" by (simp add: phi_def find_node_enter_def devs_set_probe)
qed

lemma iter_same_graph:
  assumes wo: "world_ok V w" and so: "search_ok w device"
    and it: "find_node_iter r w device = Inr (ctl, w')"
  shows "same_graph w w'"
proof -
  note v = visit_of_iter[OF it world_ok_fin[OF wo]]
  have "\<And>d. connected_node (devs w' d) = connected_node (devs w d)"
    using v by (metis)
  then show ?thesis using v iter_ok(3)[OF wo so it] by (simp add: same_graph_def)
qed

lemma phi_bound:
  assumes "world_ok V w" "search_ok w d"
  shows "phi w d \<le> 2 * card (reachable (nbrs w) (connected_node (devs w d))) + 1"
    and "phi w d \<le> 2 * card V + 1"
    and "card (visited (probe (devs w d))) \<le> card (reachable (nbrs w) (connected_node (devs w d)))"
proof -
  have po: "probe_ok (nbrs w) (connected_node (devs w d)) (probe (devs w d))"
    using assms(1) by (simp add: world_ok_def)
  have pso: "probe_search_ok (nbrs w) (connected_node (devs w d)) (probe (devs w d))"
    using assms(2) by (simp add: search_ok_alt)
  note sb = search_bound[OF world_ok_reach(2)[OF assms(1)] po pso]
  show a: "phi w d \<le> 2 * card (reachable (nbrs w) (connected_node (devs w d))) + 1"
    using sb(4) by (simp add: phi_def)
  show "phi w d \<le> 2 * card V + 1" using a world_ok_reach(3)[OF assms(1), of d] by simp
  show "card (visited (probe (devs w d))) \<le> card (reachable (nbrs w) (connected_node (devs w d)))"
    using sb(2) .
qed

lemma prio_of_range: "1 \<le> prio_of ds d \<and> prio_of ds d \<le> 5"
  by (cases "priority (ds d)") (simp_all add: prio_of_def)

lemma pot_Call:
  assumes "p' < p" "f < B" shows "p' * B < p * B - (f::nat)"
proof -
  have "Suc p' \<le> p" using assms(1) by simp
  then have "Suc p' * B \<le> p * B" by (rule mult_le_mono1)
  then show ?thesis using assms(2) by simp
qed

lemma pot_pos:
  assumes "1 \<le> p" "f < B" shows "0 < p * B - (f::nat)"
  using pot_Call[of 0 p f B] assms by simp

lemma step_ok:
  assumes co: "config_ok V (w, device # callers)"
  shows "\<exists>w' st'. step r (w, device # callers) = Inr (w', st') \<and> config_ok V (w', st') \<and>
           same_graph w w' \<and> pot V (w', st') < pot V (w, device # callers) \<and>
           (st' = device # callers \<longrightarrow> phi w' device = Suc (phi w device))"
proof -
  have wo: "world_ok V w" and so: "search_ok w device" using co by (simp_all add: config_ok_def)
  from iter_total[OF wo, of r device] obtain ctl w1 where it: "find_node_iter r w device = Inr (ctl, w1)"
    by blast
  note ok = iter_ok[OF wo so it]
  note sg = iter_same_graph[OF wo so it]
  let ?B = "2 * card V + 2"
  let ?p = "nat (prio_of (devs w) device)"
  have pr: "prio_of (devs w1) = prio_of (devs w)" using ok(3) by (simp add: prio_of_def fun_eq_iff)
  have p1: "1 \<le> ?p" using prio_of_range[of "devs w" device] by linarith
  have fB: "phi w device < ?B" using phi_bound(2)[OF wo so] by simp
  have pot0: "pot V (w, device # callers) = ?p * ?B - phi w device" by (simp add: pot_def)
  have pos: "0 < pot V (w, device # callers)" unfolding pot0 using pot_pos[OF p1 fB] .
  show ?thesis
  proof (cases ctl)
    case Continue
    have s: "step r (w, device # callers) = Inr (w1, device # callers)" using it Continue by (simp add: step_def)
    have c1: "config_ok V (w1, device # callers)" using ok(1,2) by (simp add: config_ok_def)
    have ph: "phi w1 device = Suc (phi w device)" using ok(4) Continue by simp
    have "phi w1 device < ?B" using phi_bound(2)[OF ok(1,2)] by simp
    then have "Suc (phi w device) < ?p * ?B"
      using ph p1 by (metis less_le_trans mult_le_mono1 nat_mult_1)
    then have "pot V (w1, device # callers) < pot V (w, device # callers)"
      unfolding pot0 by (simp add: pot_def pr ph)
    then show ?thesis using s c1 sg ph by simp
  next
    case Break
    have s: "step r (w, device # callers) = Inr (w1, [])" using it Break by (simp add: step_def)
    show ?thesis using s ok(1) sg pos by (simp add: config_ok_def pot_def)
  next
    case LoopExit
    have s: "step r (w, device # callers) = Inr (w1, [])" using it LoopExit by (simp add: step_def)
    show ?thesis using s ok(1) sg pos by (simp add: config_ok_def pot_def)
  next
    case (Call d')
    let ?w2 = "find_node_enter w1 d'"
    have s: "step r (w, device # callers) = Inr (?w2, d' # device # callers)"
      using it Call by (simp add: step_def)
    note en = enter_ok[OF ok(1), of d']
    have c2: "config_ok V (?w2, d' # device # callers)" using en(1,2) by (simp add: config_ok_def)
    have sg2: "same_graph w ?w2" using same_graph_trans[OF sg same_graph_enter] .
    have lt: "prio_of (devs w) d' < prio_of (devs w) device" using ok(5) Call by simp
    have pr2: "prio_of (devs ?w2) d' = prio_of (devs w) d'"
      using sg2 by (simp add: same_graph_def prio_of_def)
    have "nat (prio_of (devs w) d') < ?p" using lt prio_of_range[of "devs w" d'] by linarith
    from pot_Call[OF this fB] have "pot V (?w2, d' # device # callers) < pot V (w, device # callers)"
      unfolding pot0 by (simp add: pot_def pr2 en(3))
    moreover have "d' # device # callers \<noteq> device # callers" by simp
    ultimately show ?thesis using s c2 sg2 by simp
  qed
qed

lemma run_ok:
  "config_ok V (w, st) \<Longrightarrow>
     \<exists>w' st'. run rs (w, st) = Inr (w', st') \<and> config_ok V (w', st') \<and> same_graph w w'"
proof (induction rs arbitrary: w st)
  case Nil
  then show ?case by simp
next
  case (Cons r rs)
  show ?case
  proof (cases st)
    case Nil
    then show ?thesis using Cons.prems run_empty_stack[of "r # rs" w] by auto
  next
    case (Cons device callers)
    from step_ok[OF Cons.prems[unfolded Cons], of r] obtain w1 st1 where
      s: "step r (w, st) = Inr (w1, st1)" "config_ok V (w1, st1)" "same_graph w w1"
      unfolding Cons by blast
    from Cons.IH[OF s(2)] obtain w' st' where
      r: "run rs (w1, st1) = Inr (w', st')" "config_ok V (w', st')" "same_graph w1 w'" by blast
    show ?thesis using s(1) r(1,2) same_graph_trans[OF s(3) r(3)] by auto
  qed
qed

lemma run_terminates:
  "config_ok V (w, st) \<Longrightarrow> pot V (w, st) \<le> length rs \<Longrightarrow> \<exists>w'. run rs (w, st) = Inr (w', [])"
proof (induction rs arbitrary: w st)
  case Nil
  then have "st = []"
  proof (cases st)
    case (Cons device callers)
    from step_ok[OF Nil.prems(1)[unfolded Cons], of 0] have "0 < pot V (w, st)" unfolding Cons by auto
    then show ?thesis using Nil.prems(2) by simp
  qed simp
  then show ?case by simp
next
  case (Cons r rs)
  show ?case
  proof (cases st)
    case Nil
    then show ?thesis using run_empty_stack[of "r # rs" w] by auto
  next
    case c: (Cons device callers)
    from step_ok[OF Cons.prems(1)[unfolded c], of r] obtain w1 st1 where
      s: "step r (w, st) = Inr (w1, st1)" "config_ok V (w1, st1)" "pot V (w1, st1) < pot V (w, st)"
      unfolding c by blast
    have "pot V (w1, st1) \<le> length rs" using s(3) Cons.prems(2) by simp
    from Cons.IH[OF s(2) this] show ?thesis using s(1) by auto
  qed
qed

lemma step_back_same_fwd:
  assumes "step r (w, st) = Inr (w1, st1)" "run rs (w1, st1) = Inr (w', st)" "st \<noteq> []"
  shows "st1 = st"
proof -
  from step_stack[OF assms(1)] consider "st1 = []" | "st1 = st" | d where "st1 = d # st" by blast
  then show ?thesis
  proof cases
    case 1
    then show ?thesis using assms(2,3) run_empty_stack[of rs w1] by simp
  next
    case 2
    then show ?thesis .
  next
    case 3
    from run_stack[OF assms(2)] assms(3) obtain pre where "st = pre @ st1" by blast
    then have "length st = length pre + Suc (length st)" using 3 by simp
    then show ?thesis by simp
  qed
qed

lemma run_phi:
  "config_ok V (w, d # st) \<Longrightarrow> run rs (w, d # st) = Inr (w', d # st) \<Longrightarrow>
     phi w' d = phi w d + length rs"
proof (induction rs arbitrary: w)
  case Nil
  then show ?case by simp
next
  case (Cons r rs)
  from step_ok[OF Cons.prems(1), of r] obtain w1 st1 where
    s: "step r (w, d # st) = Inr (w1, st1)" "config_ok V (w1, st1)"
       "st1 = d # st \<longrightarrow> phi w1 d = Suc (phi w d)" by blast
  have r: "run rs (w1, st1) = Inr (w', d # st)" using Cons.prems(2) s(1) by simp
  have "st1 = d # st"
  proof (rule step_back_same_fwd)
    show "step r (w, d # st) = Inr (w1, st1)" using s(1) .
    show "run rs (w1, st1) = Inr (w', d # st)" using r .
    show "d # st \<noteq> []" by simp
  qed
  then show ?case using Cons.IH[of w1] s r by simp
qed

lemma phase_run_ok:
  "config_ok V c \<Longrightarrow> \<exists>c' pend'. phase_run rs (c, pend) = Inr (c', pend') \<and> config_ok V c'"
proof (induction rs arbitrary: c pend)
  case Nil
  then show ?case by simp
next
  case (Cons r rs)
  obtain w st where c: "c = (w, st)" by (cases c)
  have "\<exists>c1 pend1. phase_step r (c, pend) = Inr (c1, pend1) \<and> config_ok V c1"
  proof (cases st)
    case Nil
    show ?thesis
    proof (cases pend)
      case n: Nil
      then show ?thesis using Cons.prems c Nil by (simp add: phase_step_def)
    next
      case (Cons d ds)
      have wo: "world_ok V w" using Cons.prems c by (simp add: config_ok_def)
      have "config_ok V (assign_device w d)"
        using enter_ok(1,2)[OF wo, of d] by (simp add: config_ok_def assign_device_def)
      then show ?thesis using c Nil Cons by (simp add: phase_step_def)
    qed
  next
    case (Cons device callers)
    from step_ok[OF Cons.prems[unfolded c Cons], of r] obtain w1 st1 where
      "step r (w, device # callers) = Inr (w1, st1)" "config_ok V (w1, st1)" by blast
    then show ?thesis using c Cons by (simp add: phase_step_def)
  qed
  then obtain c1 pend1 where s: "phase_step r (c, pend) = Inr (c1, pend1)" "config_ok V c1" by blast
  from Cons.IH[OF s(2), of pend1] show ?case using s(1) by simp
qed

lemma world_after_ok:
  assumes "world_ok V w"
  shows "world_ok V (world_after rs ((w, []), pend))"
proof -
  have "config_ok V (w, [])" using assms by (simp add: config_ok_def)
  from phase_run_ok[OF this, of rs pend] obtain c' pend' where
    r: "phase_run rs ((w, []), pend) = Inr (c', pend')" "config_ok V c'" by blast
  obtain w' st' where c: "c' = (w', st')" by (cases c')
  show ?thesis using r c by (simp add: world_after_def config_ok_def)
qed

lemma world_ok_w_ex: "world_ok {0, 1, 2, 3} w_ex"
proof -
  have p: "\<And>d. probe (devs w_ex d) = Probe_init 0" "\<And>d. connected_node (devs w_ex d) = 0"
    by (simp_all add: w_ex_def ds0_def Device_init_def)
  have "\<And>g. probe_ok g 0 (Probe_init 0)"
    by (auto simp: probe_ok_def Probe_init_def split: if_splits)
  then show ?thesis unfolding world_ok_def p
    by (auto simp: nbrs_def w_ex_def nodes_ex_def split: if_splits)
qed

section \<open>Eviction on the nodes of a run\<close>

lemma prio_of_set_probe [simp]: "prio_of (devs (set_probe w d p)) = prio_of (devs w)"
  by (simp add: prio_of_def set_probe_def fun_eq_iff)

lemma heaps_ok_set_probe [simp]: "heaps_ok (set_probe w d p) = heaps_ok w"
  by (simp add: heaps_ok_def nodes_set_probe)

lemma heaps_ok_enter [simp]: "heaps_ok (find_node_enter w d) = heaps_ok w"
  by (simp add: find_node_enter_def)

lemma add_device_heap_ok:
  assumes "add_device ds nd dev = Inr (node', d)" "heap_ok (prio_of ds) (devices nd)"
  shows "heap_ok (prio_of ds) (devices node')"
  by (cases rule: add_device_cases[of nd ds dev]) (use assms in auto)

lemma iter_heaps_ok:
  assumes h: "heaps_ok w" and it: "find_node_iter r w device = Inr (ctl, w')"
  shows "heaps_ok w'"
  using it
proof (cases rule: find_node_iter_elim)
  case exit
  then show ?thesis using h by simp
next
  case (incr S)
  then show ?thesis using h by simp
next
  case (visit S n node' d)
  have "heap_ok (prio_of (devs w)) (devices (nodes w n))" using h by (simp add: heaps_ok_def)
  from add_device_heap_ok[OF visit(5) this] have "heap_ok (prio_of (devs w)) (devices node')" .
  then show ?thesis unfolding visit(6) using h by (simp add: heaps_ok_def nodes_set_probe)
qed

lemma step_heaps_ok:
  assumes h: "heaps_ok w" and st: "step r (w, stk) = Inr (w', stk')"
  shows "heaps_ok w'"
proof (cases stk)
  case Nil
  then show ?thesis using st h by (simp add: step_def)
next
  case (Cons device callers)
  then obtain ctl w1 where it: "find_node_iter r w device = Inr (ctl, w1)"
    using st by (auto simp: step_def split: sum.splits)
  note h1 = iter_heaps_ok[OF h it]
  show ?thesis using st it Cons h1 by (cases ctl) (auto simp: step_def)
qed

lemma phase_step_heaps_ok:
  assumes "heaps_ok w" "phase_step r ((w, stk), pend) = Inr ((w', stk'), pend')"
  shows "heaps_ok w'"
proof (cases stk)
  case Nil
  then show ?thesis using assms
    by (cases pend) (auto simp: phase_step_def assign_device_def)
next
  case (Cons device callers)
  then have "step r (w, stk) = Inr (w', stk')" using assms(2)
    by (auto simp: phase_step_def split: sum.splits)
  then show ?thesis using step_heaps_ok[OF assms(1)] by blast
qed

lemma phase_run_heaps_ok:
  "heaps_ok w \<Longrightarrow> phase_run rs ((w, stk), pend) = Inr ((w', stk'), pend') \<Longrightarrow> heaps_ok w'"
proof (induction rs arbitrary: w stk pend)
  case Nil
  then show ?case by simp
next
  case (Cons r rs)
  from Cons.prems(2) obtain w1 stk1 pend1 where
    s: "phase_step r ((w, stk), pend) = Inr ((w1, stk1), pend1)"
       "phase_run rs ((w1, stk1), pend1) = Inr ((w', stk'), pend')"
    by (auto split: sum.splits)
  show ?case using Cons.IH[OF phase_step_heaps_ok[OF Cons.prems(1) s(1)] s(2)] .
qed

text \<open>
  Claim C2. Take any node, at any moment of the assignment phase (the nodes start empty,
  the devices are distinct, and every collection is what the calls of \<^verbatim>\<open>add_device\<close>
  made so far have built). If the node is at full occupancy, \<^verbatim>\<open>add_device(D)\<close> returns a
  device other than \<open>D\<close> if and only if the priority of \<open>D\<close> is strictly greater than
  that of the weakest device assigned; on equal (or lower) priority \<open>D\<close> itself is
  returned and the collection is kept; when a device \<open>r\<close> is evicted it was a weakest
  one, and afterwards \<open>D\<close> is in the collection and \<open>r\<close> is not. That the collection is
  a heap of distinct devices is not assumed: it follows from what \<^verbatim>\<open>heappush\<close> and
  \<^verbatim>\<open>heappushpop\<close> do in the calls before.
\<close>

theorem add_device_eviction:
  assumes "\<forall>n. devices (nodes w n) = []" and "distinct pending"
    and "phase_run rs ((w, []), pending) = Inr ((w', st), pending')"
    and "\<not> int (length (devices (nodes w' n))) < resources (nodes w' n)"
  shows "\<exists>n' r. add_device (devs w') (nodes w' n) D = Inr (n', Some r) \<and>
     (r \<noteq> D \<longleftrightarrow> devices (nodes w' n) \<noteq> [] \<and>
        Min (prio_of (devs w') ` set (devices (nodes w' n))) < prio_of (devs w') D) \<and>
     (r \<noteq> D \<longrightarrow> r \<in> set (devices (nodes w' n)) \<and>
        prio_of (devs w') r = Min (prio_of (devs w') ` set (devices (nodes w' n))) \<and>
        D \<in> set (devices n') \<and> r \<notin> set (devices n')) \<and>
     (r = D \<longrightarrow> devices n' = devices (nodes w' n))"
proof -
  have "heaps_ok w" using assms(1) by (simp add: heaps_ok_def heap_ok_def)
  from phase_run_heaps_ok[OF this assms(3)]
  have h: "heap_ok (prio_of (devs w')) (devices (nodes w' n))" by (simp add: heaps_ok_def)
  have "phase_inv ((w, []), pending)" using assms(1,2) by (simp add: phase_inv_def no_dup_def)
  from phase_run_inv[OF this assms(3)] have d: "distinct (devices (nodes w' n))"
    by (simp add: phase_inv_def no_dup_def)
  show ?thesis using full_node_eviction[OF assms(4) h d] .
qed

lemma ex_room:
  "(case phase_run [0,0, 0,0, 0,0, 0,0,0,0] ((w_room, []), [4, 3, 2, 1]) of
      Inr ((w', st), pend) \<Rightarrow>
        (map (\<lambda>n. devices (nodes w' n)) [0, 1], resources (nodes w' 0), st, pend,
         map (prio_of (devs w')) [2, 3, 4, 5, 6])
    | Inl e \<Rightarrow> ([], 0, [], [], []))
   = ([[2, 4, 3], [1]], 3, [], [], [2, 3, 4, 5, 2])"
  by code_simp

theorem add_device_eviction_witness:
  "\<exists>w' n'. phase_run [0,0, 0,0, 0,0, 0,0,0,0] ((w_room, []), [4, 3, 2, 1]) = Inr ((w', []), []) \<and>
     devices (nodes w' 0) = [2, 4, 3] \<and> resources (nodes w' 0) = 3 \<and>
     add_device (devs w') (nodes w' 0) 5 = Inr (n', Some 2) \<and>
     5 \<in> set (devices n') \<and> 2 \<notin> set (devices n') \<and>
     add_device (devs w') (nodes w' 0) 6 = Inr (nodes w' 0, Some 6)"
proof -
  obtain w' where r: "phase_run [0,0, 0,0, 0,0, 0,0,0,0] ((w_room, []), [4, 3, 2, 1]) = Inr ((w', []), [])"
    and d: "devices (nodes w' 0) = [2, 4, 3]" "resources (nodes w' 0) = 3"
    and p: "prio_of (devs w') 2 = 2" "prio_of (devs w') 3 = 3" "prio_of (devs w') 4 = 4"
           "prio_of (devs w') 5 = 5" "prio_of (devs w') 6 = 2"
    using ex_room by (auto split: sum.splits prod.splits)
  have a: "\<forall>n. devices (nodes w_room n) = []" by (simp add: w_room_def nodes_ex_def)
  have b: "distinct [4, 3, 2, 1 :: nat]" by simp
  have f: "\<not> int (length (devices (nodes w' 0))) < resources (nodes w' 0)" using d by simp
  have m: "Min (prio_of (devs w') ` set (devices (nodes w' 0))) = 2" using d p by simp
  from add_device_eviction[OF a b r f, of 5] obtain n' x where
    x: "add_device (devs w') (nodes w' 0) 5 = Inr (n', Some x)"
       "x \<noteq> 5 \<longleftrightarrow> devices (nodes w' 0) \<noteq> [] \<and> 2 < prio_of (devs w') 5"
       "x \<noteq> 5 \<longrightarrow> x \<in> set (devices (nodes w' 0)) \<and> prio_of (devs w') x = 2 \<and>
                  5 \<in> set (devices n') \<and> x \<notin> set (devices n')"
    unfolding m by blast
  have "x \<noteq> 5" using x(2) d p by simp
  then have xs: "x \<in> {2, 4, 3}" "prio_of (devs w') x = 2" "5 \<in> set (devices n')" "x \<notin> set (devices n')"
    using x(3) d by auto
  have x2: "x = 2" using xs(1,2) p by auto
  from add_device_eviction[OF a b r f, of 6] obtain n'' y where
    y: "add_device (devs w') (nodes w' 0) 6 = Inr (n'', Some y)"
       "y \<noteq> 6 \<longleftrightarrow> devices (nodes w' 0) \<noteq> [] \<and> 2 < prio_of (devs w') 6"
       "y = 6 \<longrightarrow> devices n'' = devices (nodes w' 0)"
    unfolding m by blast
  have y6: "y = 6" using y(2) p by simp
  have "n'' = nodes w' 0"
    by (cases rule: add_device_cases[of "nodes w' 0" "devs w'" 6]) (use y(1) y6 p d in auto)
  then show ?thesis using r d x(1) xs(3,4) y(1) y6 unfolding x2 by blast
qed

section \<open>The terminal state of a search\<close>

lemma reachable_ball: "reachable g orig \<subseteq> (\<Union>k. ball g orig k)"
proof
  fix n assume "n \<in> reachable g orig"
  then have "(orig, n) \<in> {(a, b). b \<in> g a}\<^sup>*" by (simp add: reachable_def)
  then show "n \<in> (\<Union>k. ball g orig k)"
  proof (induction rule: rtrancl_induct)
    case base
    have "orig \<in> ball g orig 0" by simp
    then show ?case by blast
  next
    case (step y z)
    then obtain k where k: "y \<in> ball g orig k" by blast
    have "z \<in> g y" using step(2) by simp
    then have "z \<in> ball g orig (Suc k)" using k by auto
    then show ?case by blast
  qed
qed

lemma search_exhausted:
  assumes ok: "probe_ok g orig p" and so: "probe_search_ok g orig p"
    and ex: "\<not> distance p < length (frontier p)"
  shows "visited p = reachable g orig"
proof -
  let ?L = "length (frontier p)"
  have keys: "map fst (frontier p) = [0..<?L]" and ne: "frontier p \<noteq> []"
    using ok by (auto simp: probe_ok_def)
  have dL: "distance p = ?L" using so ex by (simp add: probe_search_ok_def)
  have B: "\<forall>j < ?L. sphere g orig j \<subseteq> visited p"
    and A: "\<forall>n \<in> visited p. \<exists>i \<le> ?L. n \<in> sphere g orig i \<and> g n \<subseteq> fr_at p (Suc i)"
    using so dL by (auto simp: probe_search_ok_def)
  have absent: "\<And>j. ?L \<le> j \<Longrightarrow> fr_at p j = {}"
  proof -
    fix j assume "?L \<le> j"
    then have "\<not> (\<exists>S. map_of (frontier p) j = Some S)" using keys_map_of[OF keys, of j] by simp
    then show "fr_at p j = {}" by (simp add: fr_at_def split: option.splits)
  qed
  obtain l where l: "?L = Suc l" using ne by (cases "frontier p") auto
  have sL: "sphere g orig ?L = {}"
  proof -
    have "\<And>n. n \<in> sphere g orig l \<Longrightarrow> g n = {}"
    proof -
      fix n assume n: "n \<in> sphere g orig l"
      then have "n \<in> visited p" using B l by auto
      then obtain i where i: "n \<in> sphere g orig i" "g n \<subseteq> fr_at p (Suc i)" using A by blast
      have "i = l" using sphere_unique[OF i(1) n] .
      then show "g n = {}" using i(2) absent[of "Suc l"] l by simp
    qed
    then have "(\<Union>n \<in> sphere g orig l. g n) = {}" by simp
    then show ?thesis using sphere_Suc_sub[of g orig l] l by simp
  qed
  have S: "\<And>j. ?L \<le> j \<Longrightarrow> sphere g orig j = {}"
  proof -
    fix j assume "?L \<le> j"
    then show "sphere g orig j = {}"
    proof (induction j)
      case 0
      then show ?case using l by simp
    next
      case (Suc j)
      show ?case
      proof (cases "?L = Suc j")
        case True
        then show ?thesis using sL by simp
      next
        case False
        then have "sphere g orig j = {}" using Suc by simp
        then have "(\<Union>n \<in> sphere g orig j. g n) = {}" by simp
        then show ?thesis using sphere_Suc_sub[of g orig j] by blast
      qed
    qed
  qed
  have bv: "\<And>k. ball g orig k \<subseteq> visited p"
  proof
    fix k n assume "n \<in> ball g orig k"
    then obtain j where j: "n \<in> sphere g orig j" using ball_sphere by blast
    have "j < ?L" using S[of j] j by (cases "j < ?L") auto
    then show "n \<in> visited p" using B j by blast
  qed
  have 1: "reachable g orig \<subseteq> visited p" using reachable_ball[of g orig] bv by blast
  have 2: "visited p \<subseteq> reachable g orig"
  proof
    fix n assume "n \<in> visited p"
    then obtain i where "n \<in> sphere g orig i" using A by blast
    then show "n \<in> reachable g orig" using sphere_sub_ball ball_sub_reachable by blast
  qed
  show ?thesis using 1 2 by blast
qed

lemma iter_placed:
  assumes it: "find_node_iter r w device = Inr (ctl, w')"
    and c: "ctl = Break \<or> (\<exists>d'. ctl = Call d')"
  shows "placed w' device"
  using it
proof (cases rule: find_node_iter_elim)
  case exit
  then show ?thesis using c by auto
next
  case (incr S)
  then show ?thesis using c by auto
next
  case (visit S n node' d)
  have nd: "d \<noteq> Some device" using visit(7) c by (auto split: option.splits if_splits)
  have "device \<in> set (devices node')"
  proof (cases rule: add_device_cases[of "nodes w n" "devs w" device])
    case (push h')
    have "device \<in># mset h'" unfolding push(3) by simp
    then show ?thesis using push(2) visit(5) by simp
  next
    case keep
    then show ?thesis using visit(5) nd by simp
  next
    case (swap h')
    have "device \<in> set ((devices (nodes w n))[0 := device])"
      using swap(2) by (simp add: set_update_memI)
    then have "device \<in># mset h'" unfolding swap(5) by simp
    then show ?thesis using swap(4) visit(5) by simp
  qed
  moreover have "nodes w' n = node'" unfolding visit(6) by simp
  ultimately show ?thesis unfolding placed_def by blast
qed

lemma step_terminal:
  assumes co: "config_ok V (w, d # callers)" and un: "\<not> placed w d"
    and st: "step r (w, d # callers) = Inr (w2, st2)" and ne: "st2 \<noteq> d # callers"
  shows "placed w2 d \<or>
         (visited (probe (devs w2 d)) = reachable (nbrs w) (connected_node (devs w d)) \<and> \<not> placed w2 d)"
proof -
  have wo: "world_ok V w" and so: "search_ok w d" using co by (simp_all add: config_ok_def)
  from st obtain ctl w1 where it: "find_node_iter r w d = Inr (ctl, w1)"
    by (auto simp: step_def split: sum.splits)
  show ?thesis
  proof (cases ctl)
    case Continue
    then show ?thesis using st it ne by (simp add: step_def)
  next
    case Break
    then have "w2 = w1" using st it by (simp add: step_def)
    then show ?thesis using iter_placed[OF it] Break by simp
  next
    case (Call d')
    then have "w2 = find_node_enter w1 d'" using st it by (simp add: step_def)
    then have "placed w2 d = placed w1 d" by (simp add: placed_def)
    then show ?thesis using iter_placed[OF it] Call by simp
  next
    case LoopExit
    then have w2: "w2 = w1" using st it by (simp add: step_def)
    have po: "probe_ok (nbrs w) (connected_node (devs w d)) (probe (devs w d))"
      using wo by (simp add: world_ok_def)
    have pso: "probe_search_ok (nbrs w) (connected_node (devs w d)) (probe (devs w d))"
      using so by (simp add: search_ok_alt)
    from it have e: "w1 = w \<and> \<not> distance (probe (devs w d)) \<le> fst (last (frontier (probe (devs w d))))"
      using LoopExit by (cases rule: find_node_iter_elim) (auto split: option.splits if_splits)
    then have "\<not> distance (probe (devs w d)) < length (frontier (probe (devs w d)))"
      using probe_loop_cond[OF po] by simp
    from search_exhausted[OF po pso this] show ?thesis using e w2 un by simp
  qed
qed

lemma run_first_exit:
  "run rs (w, st) = Inr (w', st') \<Longrightarrow> st' \<noteq> st \<Longrightarrow>
     \<exists>k < length rs. \<exists>w2 w3 st3. run (take k rs) (w, st) = Inr (w2, st) \<and>
        step (rs ! k) (w2, st) = Inr (w3, st3) \<and> st3 \<noteq> st"
proof (induction rs arbitrary: w)
  case Nil
  then show ?case by simp
next
  case (Cons r rs)
  from Cons.prems(1) obtain w1 st1 where s: "step r (w, st) = Inr (w1, st1)"
    "run rs (w1, st1) = Inr (w', st')" by (auto split: sum.splits)
  show ?case
  proof (cases "st1 = st")
    case False
    have "run (take 0 (r # rs)) (w, st) = Inr (w, st)" by simp
    moreover have "step ((r # rs) ! 0) (w, st) = Inr (w1, st1)" using s(1) by simp
    ultimately show ?thesis using False by blast
  next
    case True
    from Cons.IH[OF s(2)[unfolded True] Cons.prems(2)] obtain k w2 w3 st3 where
      k: "k < length rs" "run (take k rs) (w1, st) = Inr (w2, st)"
         "step (rs ! k) (w2, st) = Inr (w3, st3)" "st3 \<noteq> st" by blast
    have "run (take (Suc k) (r # rs)) (w, st) = Inr (w2, st)" using s(1) True k(2) by simp
    moreover have "step ((r # rs) ! Suc k) (w2, st) = Inr (w3, st3)" using k(3) by simp
    moreover have "Suc k < length (r # rs)" using k(1) by simp
    ultimately show ?thesis using k(4) by blast
  qed
qed

lemma init_world_ok:
  assumes "init_ok V w" shows "world_ok V w"
proof -
  have "\<And>g orig. probe_ok g orig (Probe_init orig)"
    by (auto simp: probe_ok_def Probe_init_def split: if_splits)
  then show ?thesis using assms by (simp add: init_ok_def world_ok_def)
qed

lemma phase_run_same:
  "config_ok V (w, st) \<Longrightarrow> phase_run rs ((w, st), pend) = Inr ((w', st'), pend') \<Longrightarrow>
     config_ok V (w', st') \<and> same_graph w w'"
proof (induction rs arbitrary: w st pend)
  case Nil
  then show ?case by simp
next
  case (Cons r rs)
  from Cons.prems(2) obtain w1 st1 pend1 where
    s: "phase_step r ((w, st), pend) = Inr ((w1, st1), pend1)"
       "phase_run rs ((w1, st1), pend1) = Inr ((w', st'), pend')"
    by (auto split: sum.splits)
  have wo: "world_ok V w" using Cons.prems(1) by (simp add: config_ok_def)
  have a: "config_ok V (w1, st1) \<and> same_graph w w1"
  proof (cases st)
    case Nil
    show ?thesis
    proof (cases pend)
      case n: Nil
      then show ?thesis using s(1) Nil Cons.prems(1) by (simp add: phase_step_def)
    next
      case (Cons d ds)
      then have "w1 = find_node_enter w d" "st1 = [d]" using s(1) Nil
        by (simp_all add: phase_step_def assign_device_def)
      then show ?thesis using enter_ok(1,2)[OF wo, of d] same_graph_enter[of w d]
        by (simp add: config_ok_def)
    qed
  next
    case c: (Cons device callers)
    then have "step r (w, device # callers) = Inr (w1, st1)" using s(1)
      by (auto simp: phase_step_def split: sum.splits)
    then show ?thesis using step_ok[OF Cons.prems(1)[unfolded c], of r] by auto
  qed
  from Cons.IH[OF a[THEN conjunct1] s(2)] show ?case
    using same_graph_trans[OF a[THEN conjunct2]] by blast
qed

lemma run_phase_inv:
  "phase_inv ((w, st), pend) \<Longrightarrow> run rs (w, st) = Inr (w', st') \<Longrightarrow> phase_inv ((w', st'), pend)"
proof (induction rs arbitrary: w st)
  case Nil
  then show ?case by simp
next
  case (Cons r rs)
  from Cons.prems(2) obtain w1 st1 where s: "step r (w, st) = Inr (w1, st1)"
    "run rs (w1, st1) = Inr (w', st')" by (auto split: sum.splits)
  have "phase_inv ((w1, st1), pend)"
  proof (cases st)
    case Nil
    then show ?thesis using s(1) Cons.prems(1) by (simp add: step_def)
  next
    case c: (Cons device callers)
    show ?thesis using step_phase_inv[OF Cons.prems(1)[unfolded c] s(1)[unfolded c]] .
  qed
  from Cons.IH[OF this s(2)] show ?case .
qed

text \<open>
  Claim C3, as amended. Take any moment of the assignment phase at which a search is
  running: the phase starts from the store that \<^verbatim>\<open>main\<close> builds, with distinct devices,
  and the device \<open>d\<close> on top of the stack is searching, be it a submitted device or an
  evicted one. With \<open>R\<close> the number of nodes reachable from the origin of \<open>d\<close> and \<open>N\<close>
  the number of nodes:
  \<^item> the phase never raises, whatever the random draws;
  \<^item> the search of \<open>d\<close> has probed at most \<open>R\<close> nodes;
  \<^item> after at most \<open>2 R + 1\<close> further iterations that continue the loop, the next
    evaluation of the loop condition or execution of the body ends the search of \<open>d\<close> in
    a terminal state: \<open>d\<close> is placed (with or without an eviction), or the graph is
    exhausted (every node reachable from the origin of \<open>d\<close> has been probed) and \<open>d\<close> is
    unplaced;
  \<^item> the whole cascade is over (no \<^verbatim>\<open>find_node\<close> is active) after at most \<open>10 N + 10\<close>
    iterations.
\<close>

theorem search_terminates:
  assumes init: "init_ok V w" and dist: "distinct pending"
    and ph: "phase_run rs0 ((w, []), pending) = Inr ((w1, d # callers), pend1)"
  shows "(\<forall>rs. \<exists>pc. phase_run rs ((w, []), pending) = Inr pc) \<and>
         card (visited (probe (devs w1 d))) \<le> card (reachable (nbrs w) (connected_node (devs w d))) \<and>
         (\<forall>rs. 2 * card (reachable (nbrs w) (connected_node (devs w d))) + 2 \<le> length rs \<longrightarrow>
            (\<exists>k w2 w3 st3. k \<le> 2 * card (reachable (nbrs w) (connected_node (devs w d))) + 1 \<and>
               run (take k rs) (w1, d # callers) = Inr (w2, d # callers) \<and>
               step (rs ! k) (w2, d # callers) = Inr (w3, st3) \<and> st3 \<noteq> d # callers \<and>
               (placed w3 d \<or>
                (visited (probe (devs w3 d)) = reachable (nbrs w) (connected_node (devs w d)) \<and>
                 \<not> placed w3 d)))) \<and>
         (\<forall>rs. 10 * card V + 10 \<le> length rs \<longrightarrow>
            (\<exists>w'. run rs (w1, d # callers) = Inr (w', [])))"
proof (intro conjI allI impI)
  let ?R = "card (reachable (nbrs w) (connected_node (devs w d)))"
  have wo: "world_ok V w" using init_world_ok[OF init] .
  have c0: "config_ok V (w, [])" using wo by (simp add: config_ok_def)
  have i0: "phase_inv ((w, []), pending)" using init dist by (simp add: init_ok_def phase_inv_def no_dup_def)
  note ps = phase_run_same[OF c0 ph]
  have c1: "config_ok V (w1, d # callers)" and sg: "same_graph w w1" using ps by simp_all
  have i1: "phase_inv ((w1, d # callers), pend1)" using phase_run_inv[OF i0 ph] .
  have wo1: "world_ok V w1" and so1: "search_ok w1 d" using c1 by (simp_all add: config_ok_def)
  have R1: "reachable (nbrs w1) (connected_node (devs w1 d)) = reachable (nbrs w) (connected_node (devs w d))"
    using sg by (simp add: same_graph_def)
  {
    fix rs
    from phase_run_ok[OF c0, of rs pending] show "\<exists>pc. phase_run rs ((w, []), pending) = Inr pc" by blast
  }
  show "card (visited (probe (devs w1 d))) \<le> ?R" using phi_bound(3)[OF wo1 so1] unfolding R1 .
  {
    fix rs :: "nat list" assume l: "2 * ?R + 2 \<le> length rs"
    from run_ok[OF c1, of rs] obtain w' st' where
      r: "run rs (w1, d # callers) = Inr (w', st')" and c': "config_ok V (w', st')"
      and sg': "same_graph w1 w'" by blast
    have "st' \<noteq> d # callers"
    proof
      assume e: "st' = d # callers"
      have p: "phi w' d = phi w1 d + length rs" using run_phi[OF c1 r[unfolded e]] .
      have wo': "world_ok V w'" and so': "search_ok w' d" using c' e by (simp_all add: config_ok_def)
      have "reachable (nbrs w') (connected_node (devs w' d)) = reachable (nbrs w) (connected_node (devs w d))"
        using same_graph_trans[OF sg sg'] by (simp add: same_graph_def)
      then have "phi w' d \<le> 2 * ?R + 1" using phi_bound(1)[OF wo' so'] by simp
      then show False using p l by simp
    qed
    from run_first_exit[OF r this] obtain k w2 w3 st3 where
      k: "k < length rs" "run (take k rs) (w1, d # callers) = Inr (w2, d # callers)"
         "step (rs ! k) (w2, d # callers) = Inr (w3, st3)" "st3 \<noteq> d # callers" by blast
    from run_ok[OF c1, of "take k rs"] k(2) have c2: "config_ok V (w2, d # callers)"
      and sg2: "same_graph w1 w2" by auto
    have wo2: "world_ok V w2" and so2: "search_ok w2 d" using c2 by (simp_all add: config_ok_def)
    have R2: "reachable (nbrs w2) (connected_node (devs w2 d)) = reachable (nbrs w) (connected_node (devs w d))"
      using same_graph_trans[OF sg sg2] by (simp add: same_graph_def)
    have "phi w2 d = phi w1 d + length (take k rs)" using run_phi[OF c1 k(2)] .
    then have "k \<le> phi w2 d" using k(1) by simp
    also have "\<dots> \<le> 2 * ?R + 1" using phi_bound(1)[OF wo2 so2] unfolding R2 .
    finally have kb: "k \<le> 2 * ?R + 1" .
    have i2: "phase_inv ((w2, d # callers), pend1)" using run_phase_inv[OF i1 k(2)] .
    then have un: "\<not> placed w2 d" by (simp add: phase_inv_def placed_def)
    note t = step_terminal[OF c2 un k(3,4), unfolded R2]
    show "\<exists>k w2 w3 st3. k \<le> 2 * ?R + 1 \<and>
               run (take k rs) (w1, d # callers) = Inr (w2, d # callers) \<and>
               step (rs ! k) (w2, d # callers) = Inr (w3, st3) \<and> st3 \<noteq> d # callers \<and>
               (placed w3 d \<or>
                (visited (probe (devs w3 d)) = reachable (nbrs w) (connected_node (devs w d)) \<and>
                 \<not> placed w3 d))"
      using kb k(2,3,4) t by blast
  }
  {
    fix rs :: "nat list" assume l: "10 * card V + 10 \<le> length rs"
    have "nat (prio_of (devs w1) d) \<le> 5" using prio_of_range[of "devs w1" d] by linarith
    then have "nat (prio_of (devs w1) d) * (2 * card V + 2) \<le> 5 * (2 * card V + 2)"
      by (rule mult_le_mono1)
    then have "pot V (w1, d # callers) \<le> length rs" using l by (simp add: pot_def)
    from run_terminates[OF c1 this] show "\<exists>w'. run rs (w1, d # callers) = Inr (w', [])" .
  }
qed


lemma init_ok_w_ex: "init_ok {0, 1, 2, 3} w_ex"
  by (auto simp: init_ok_def nbrs_def w_ex_def nodes_ex_def ds0_def Device_init_def split: if_splits)

theorem search_terminates_witness:
  "\<exists>w1. phase_run [0,0, 0,0,0,0, 0,0,0,0] ((w_ex, []), [9, 5, 7]) = Inr ((w1, [5, 7]), []) \<and>
     card (visited (probe (devs w1 5))) \<le> 4 \<and>
     (\<exists>k w2 w3 st3. k \<le> 9 \<and>
        run (take k (replicate 10 0)) (w1, [5, 7]) = Inr (w2, [5, 7]) \<and>
        step (replicate 10 0 ! k) (w2, [5, 7]) = Inr (w3, st3) \<and> st3 \<noteq> [5, 7] \<and>
        (placed w3 5 \<or>
         (visited (probe (devs w3 5)) = reachable (nbrs w_ex) (connected_node (devs w_ex 5)) \<and>
          \<not> placed w3 5))) \<and>
     (\<exists>w'. run (replicate 50 0) (w1, [5, 7]) = Inr (w', []))"
proof -
  let ?V = "{0, 1, 2, 3 :: nat}"
  let ?R = "card (reachable (nbrs w_ex) (connected_node (devs w_ex 5)))"
  obtain w1 where r: "phase_run [0,0, 0,0,0,0, 0,0,0,0] ((w_ex, []), [9, 5, 7]) = Inr ((w1, [5, 7]), [])"
    using ex_run by (auto split: sum.splits prod.splits)
  have b: "distinct [9, 5, 7 :: nat]" by simp
  have cV: "card ?V = 4" by simp
  have R: "?R \<le> 4" using world_ok_reach(3)[OF world_ok_w_ex, of 5] cV by simp
  note t = search_terminates[OF init_ok_w_ex b r]
  have t1: "card (visited (probe (devs w1 5))) \<le> 4"
    using t[THEN conjunct2, THEN conjunct1] R by simp
  have l: "2 * ?R + 2 \<le> length (replicate 10 (0::nat))" using R by simp
  from t[THEN conjunct2, THEN conjunct2, THEN conjunct1, rule_format, OF l]
  obtain k w2 w3 st3 where k: "k \<le> 2 * ?R + 1"
    "run (take k (replicate 10 0)) (w1, [5, 7]) = Inr (w2, [5, 7])"
    "step (replicate 10 0 ! k) (w2, [5, 7]) = Inr (w3, st3)" "st3 \<noteq> [5, 7]"
    "placed w3 5 \<or>
       (visited (probe (devs w3 5)) = reachable (nbrs w_ex) (connected_node (devs w_ex 5)) \<and>
        \<not> placed w3 5)" by blast
  have k9: "k \<le> 9" using k(1) R by simp
  have t2: "\<exists>k w2 w3 st3. k \<le> 9 \<and>
        run (take k (replicate 10 0)) (w1, [5, 7]) = Inr (w2, [5, 7]) \<and>
        step (replicate 10 0 ! k) (w2, [5, 7]) = Inr (w3, st3) \<and> st3 \<noteq> [5, 7] \<and>
        (placed w3 5 \<or>
         (visited (probe (devs w3 5)) = reachable (nbrs w_ex) (connected_node (devs w_ex 5)) \<and>
          \<not> placed w3 5))"
    using k9 k(2-5) by blast
  have t3: "\<exists>w'. run (replicate 50 0) (w1, [5, 7]) = Inr (w', [])"
    using t[THEN conjunct2, THEN conjunct2, THEN conjunct2, rule_format, of "replicate 50 0"] cV by simp
  show ?thesis using r t1 t2 t3 by blast
qed

lemma reachable_w_iso: "reachable (nbrs w_iso) (connected_node (devs w_iso 5)) = {0}"
  by (simp add: reachable_def nbrs_def w_iso_def ds0_def Device_init_def)

lemma init_ok_w_iso: "init_ok {0} w_iso"
  by (simp add: init_ok_def nbrs_def w_iso_def ds0_def Device_init_def)

lemma ex_iso:
  "(case phase_run [0,0, 0,0,0,0] ((w_iso, []), [9, 5]) of
      Inr ((w', st), pend) \<Rightarrow>
        (st, devices (nodes w' 0), distance (probe (devs w' 5)), visited (probe (devs w' 5)) = {0})
    | Inl e \<Rightarrow> ([], [], 0, False)) = ([5], [9], 2, True) \<and>
   (case phase_run [0,0, 0,0,0,0, 0] ((w_iso, []), [9, 5]) of
      Inr ((w', st), pend) \<Rightarrow> (True, st) | Inl e \<Rightarrow> (False, [])) = (True, [])"
  by code_simp

text \<open>
  Claim C3 as stated fails on the count when a step is an iteration of the loop. Node 0,
  of capacity 1 and without neighbours, is the only node; device 9 (MAX) is placed
  first. One node is reachable from the origin of device 5 (MED). After three iterations
  of its loop (the probe of node 0, which rejects it, then \<open>distance\<close> from 0 to 1 and
  from 1 to 2) the search of device 5 still is in its loop, with \<open>visited = {0}\<close> and
  \<open>distance = 2\<close>; the fourth evaluation of the condition ends it. The number of nodes
  probed, one, is within the bound.
\<close>

theorem search_steps_counterexample:
  "init_ok {0} w_iso \<and>
   card (reachable (nbrs w_iso) (connected_node (devs w_iso 5))) = 1 \<and>
   (case phase_run [0,0, 0,0,0,0] ((w_iso, []), [9, 5]) of
      Inr ((w', st), pend) \<Rightarrow>
        (st, devices (nodes w' 0), distance (probe (devs w' 5)), visited (probe (devs w' 5)) = {0})
    | Inl e \<Rightarrow> ([], [], 0, False)) = ([5], [9], 2, True) \<and>
   (case phase_run [0,0, 0,0,0,0, 0] ((w_iso, []), [9, 5]) of
      Inr ((w', st), pend) \<Rightarrow> (True, st) | Inl e \<Rightarrow> (False, [])) = (True, [])"
  using ex_iso init_ok_w_iso by (simp add: reachable_w_iso)

end
